theory Spec2Isabelle
  imports Main "HOL-Library.Sublist"
begin

section \<open>The comment-stripping scanner of code-cleaner.py\<close>

text \<open>
  The scanner \<^verbatim>\<open>remove_comments_safely(content, suffix)\<close> is one \<^verbatim>\<open>while\<close> loop over an
  index \<open>i\<close> into \<open>content\<close>, with three boolean flags, the delimiter of the string being
  read and the list of emitted characters. The model keeps that shape: the local variables
  are a record, the loop body is the function \<open>step\<close>, and the loop is \<open>scan_loop\<close>.

  A Python \<^verbatim>\<open>str\<close> is modelled as a \<open>string\<close>. Every character the scanner compares
  with is ASCII, and all other characters are only copied or dropped.
  Python writes a missing character as the empty string (\<^verbatim>\<open>next_char = ""\<close> at the last
  index, \<^verbatim>\<open>string_char = ""\<close> before any string was opened); the model writes \<open>None\<close>.
\<close>

abbreviation NEWLINE :: char where "NEWLINE \<equiv> CHR 0x0A"
abbreviation BACKSLASH :: char where "BACKSLASH \<equiv> CHR 0x5C"
abbreviation QUOTE1 :: char where "QUOTE1 \<equiv> CHR 0x27"
abbreviation QUOTE2 :: char where "QUOTE2 \<equiv> CHR 0x22"
abbreviation BACKTICK :: char where "BACKTICK \<equiv> CHR 0x60"

record scan_state =
  result :: string
  i :: nat
  in_string :: bool
  string_char :: "char option"
  in_block_comment :: bool
  in_line_comment :: bool

definition init_state :: scan_state where
  "init_state = \<lparr>result = [], i = 0, in_string = False, string_char = None,
                  in_block_comment = False, in_line_comment = False\<rparr>"

definition c_like_suffixes :: "string set" where
  "c_like_suffixes = {''.js'', ''.ts'', ''.jsx'', ''.tsx'', ''.java'', ''.c'', ''.cpp'', ''.h'',
                      ''.hpp'', ''.go'', ''.php''}"

definition markup_suffixes :: "string set" where
  "markup_suffixes = {''.html'', ''.htm''}"

text \<open>
  \<^verbatim>\<open>content.find(sub, start)\<close>: the lowest index \<open>j \<ge> start\<close> with
  \<^verbatim>\<open>content[j:j+len(sub)] == sub\<close>, or \<^verbatim>\<open>-1\<close> (here \<open>None\<close>) when there is none.
\<close>

fun find_at :: "string \<Rightarrow> string \<Rightarrow> nat \<Rightarrow> nat option" where
  "find_at sub [] k = (if sub = [] then Some k else None)"
| "find_at sub (c # cs) k = (if prefix sub (c # cs) then Some k else find_at sub cs (Suc k))"

definition str_find :: "string \<Rightarrow> string \<Rightarrow> nat \<Rightarrow> nat option" where
  "str_find content sub start =
     (if length content < start then None else find_at sub (drop start content) start)"

text \<open>
  \<^verbatim>\<open>content[i - 1]\<close>: Python reads index \<open>-1\<close> as the last character, so the read at
  \<open>i = 0\<close> is written out. The loop guard gives \<open>i < len(content)\<close>, so neither this read
  nor \<^verbatim>\<open>content[i]\<close> can raise.
\<close>

definition prev_char :: "string \<Rightarrow> nat \<Rightarrow> char" where
  "prev_char content k = (if k = 0 then last content else content ! (k - 1))"

text \<open>
  The markup branch: \<^verbatim>\<open>content[i:i+4] == "<!--"\<close> and then
  \<^verbatim>\<open>end = content.find("-->", i + 4)\<close>; \<open>Some end\<close> when the skip is taken, \<open>None\<close> when the
  code falls through to the default branch.
\<close>

definition markup_end :: "string \<Rightarrow> string \<Rightarrow> nat \<Rightarrow> nat option" where
  "markup_end content sfx k =
     (if sfx \<in> markup_suffixes \<and> take 4 (drop k content) = ''<!--''
      then str_find content ''-->'' (k + 4) else None)"

text \<open>One iteration of the \<^verbatim>\<open>while\<close> loop, run under the guard \<open>i < len(content)\<close>.\<close>

definition step :: "string \<Rightarrow> string \<Rightarrow> scan_state \<Rightarrow> scan_state" where
  "step content sfx st =
     (let char = content ! i st;
          next_char = (if i st + 1 < length content then Some (content ! (i st + 1)) else None)
      in
      if in_line_comment st then
        (if char = NEWLINE
         then st\<lparr>in_line_comment := False, result := result st @ [char], i := i st + 1\<rparr>
         else st\<lparr>i := i st + 1\<rparr>)
      else if in_block_comment st then
        (if char = CHR ''*'' \<and> next_char = Some (CHR ''/'')
         then st\<lparr>in_block_comment := False, i := i st + 2\<rparr>
         else st\<lparr>i := i st + 1\<rparr>)
      else if in_string st then
        (if Some char = string_char st \<and> prev_char content (i st) \<noteq> BACKSLASH
         then st\<lparr>result := result st @ [char], in_string := False, i := i st + 1\<rparr>
         else st\<lparr>result := result st @ [char], i := i st + 1\<rparr>)
      else if char \<in> {QUOTE1, QUOTE2, BACKTICK} then
        st\<lparr>in_string := True, string_char := Some char, result := result st @ [char],
           i := i st + 1\<rparr>
      else if sfx = ''.py'' \<and> char = CHR ''#'' then
        st\<lparr>in_line_comment := True, i := i st + 1\<rparr>
      else if sfx \<in> c_like_suffixes \<and> char = CHR ''/'' \<and> next_char = Some (CHR ''/'') then
        st\<lparr>in_line_comment := True, i := i st + 2\<rparr>
      else if sfx \<in> c_like_suffixes \<and> char = CHR ''/'' \<and> next_char = Some (CHR ''*'') then
        st\<lparr>in_block_comment := True, i := i st + 2\<rparr>
      else if sfx = ''.css'' \<and> char = CHR ''/'' \<and> next_char = Some (CHR ''*'') then
        st\<lparr>in_block_comment := True, i := i st + 2\<rparr>
      else
        (case markup_end content sfx (i st) of
           Some end \<Rightarrow> st\<lparr>i := end + 3\<rparr>
         | None \<Rightarrow> st\<lparr>result := result st @ [char], i := i st + 1\<rparr>))"

text \<open>Every iteration moves the index forward; this is what makes the loop terminate.\<close>

lemma find_at_ge: "find_at sub xs k = Some e \<Longrightarrow> k \<le> e"
  by (induction xs arbitrary: k) (auto split: if_splits dest: Suc_leD)

lemma str_find_ge: "str_find content sub start = Some e \<Longrightarrow> start \<le> e"
  by (auto simp: str_find_def split: if_splits dest: find_at_ge)

lemma markup_end_ge: "markup_end content sfx k = Some e \<Longrightarrow> k + 4 \<le> e"
  by (auto simp: markup_end_def split: if_splits dest: str_find_ge)

lemma step_increases: "i st < i (step content sfx st)"
proof -
  have "\<And>e. markup_end content sfx (i st) = Some e \<Longrightarrow> i st < e + 3"
    by (drule markup_end_ge) simp
  then show ?thesis
    unfolding step_def Let_def by (simp split: option.split)
qed

text \<open>The loop \<^verbatim>\<open>while i < length: ...\<close>; it returns the locals at its exit.\<close>

function scan_loop :: "string \<Rightarrow> string \<Rightarrow> scan_state \<Rightarrow> scan_state" where
  "scan_loop content sfx st =
     (if i st < length content then scan_loop content sfx (step content sfx st) else st)"
  by pat_completeness auto
termination
  by (relation "measure (\<lambda>(content, sfx, st). length content - i st)")
     (auto intro: diff_less_mono2 step_increases)

declare scan_loop.simps [simp del]

definition remove_comments_safely :: "string \<Rightarrow> string \<Rightarrow> string" where
  "remove_comments_safely content sfx = result (scan_loop content sfx init_state)"

text \<open>
  The same loop with a bound on the number of iterations: \<open>run n\<close> executes the body while
  the guard holds, at most \<open>n\<close> times. \<open>state_at content sfx n\<close> is the state of the locals
  at the loop head after \<open>n\<close> iterations (or at the exit, when the loop is over earlier).
\<close>

fun run :: "nat \<Rightarrow> string \<Rightarrow> string \<Rightarrow> scan_state \<Rightarrow> scan_state" where
  "run 0 content sfx st = st"
| "run (Suc n) content sfx st =
     (if i st < length content then run n content sfx (step content sfx st) else st)"

definition state_at :: "string \<Rightarrow> string \<Rightarrow> nat \<Rightarrow> scan_state" where
  "state_at content sfx n = run n content sfx init_state"

text \<open>At most one of the three mode flags is set.\<close>

definition exclusive :: "scan_state \<Rightarrow> bool" where
  "exclusive st =
     (\<not> (in_line_comment st \<and> in_block_comment st) \<and>
      \<not> (in_line_comment st \<and> in_string st) \<and>
      \<not> (in_block_comment st \<and> in_string st))"

text \<open>The extensions the tool knows (the source's \<^verbatim>\<open>DEFAULT_EXTENSIONS\<close>): exactly those
  the scanner has a rule for.\<close>

definition DEFAULT_EXTENSIONS :: "string list" where
  "DEFAULT_EXTENSIONS =
     [''.py'', ''.js'', ''.ts'', ''.jsx'', ''.tsx'',
      ''.java'', ''.c'', ''.cpp'', ''.h'', ''.hpp'',
      ''.go'', ''.php'', ''.css'', ''.html'', ''.htm'']"

section \<open>The scanner as a function of the remaining input\<close>

text \<open>
  For suffixes without the markup rule, what the loop appends from a state on depends only
  on the mode it is in and on the input that remains. \<open>scan_rest\<close> states this as a
  recursion over the remaining input; the lemma \<open>scan_loop_scan_rest\<close> below proves that
  the loop computes it. In string mode the mode carries the delimiter and the character read last.
\<close>

datatype mode = Code | LineComment | BlockComment | StringLiteral "char option" char

function scan_rest :: "string \<Rightarrow> mode \<Rightarrow> string \<Rightarrow> string" where
  "scan_rest sfx m [] = []"
| "scan_rest sfx LineComment (c # cs) =
     (if c = NEWLINE then c # scan_rest sfx Code cs else scan_rest sfx LineComment cs)"
| "scan_rest sfx BlockComment (c # cs) =
     (if c = CHR ''*'' \<and> cs \<noteq> [] \<and> hd cs = CHR ''/''
      then scan_rest sfx Code (tl cs) else scan_rest sfx BlockComment cs)"
| "scan_rest sfx (StringLiteral q p) (c # cs) =
     c # (if Some c = q \<and> p \<noteq> BACKSLASH
          then scan_rest sfx Code cs else scan_rest sfx (StringLiteral q c) cs)"
| "scan_rest sfx Code (c # cs) =
     (if c \<in> {QUOTE1, QUOTE2, BACKTICK} then c # scan_rest sfx (StringLiteral (Some c) c) cs
      else if sfx = ''.py'' \<and> c = CHR ''#'' then scan_rest sfx LineComment cs
      else if sfx \<in> c_like_suffixes \<and> c = CHR ''/'' \<and> cs \<noteq> [] \<and> hd cs = CHR ''/''
        then scan_rest sfx LineComment (tl cs)
      else if (sfx \<in> c_like_suffixes \<or> sfx = ''.css'') \<and> c = CHR ''/'' \<and> cs \<noteq> [] \<and>
              hd cs = CHR ''*''
        then scan_rest sfx BlockComment (tl cs)
      else c # scan_rest sfx Code cs)"
  by pat_completeness auto
termination
  by (relation "measure (\<lambda>(sfx, m, xs). length xs)") auto

definition mode_of :: "string \<Rightarrow> scan_state \<Rightarrow> mode" where
  "mode_of content st =
     (if in_line_comment st then LineComment
      else if in_block_comment st then BlockComment
      else if in_string st then StringLiteral (string_char st) (prev_char content (i st))
      else Code)"

text \<open>The mode in which a second pass meets what a first pass emits from mode \<open>m\<close> on:
  comments are gone, so a first pass inside a comment continues in code.\<close>

fun resume :: "mode \<Rightarrow> mode" where
  "resume LineComment = Code"
| "resume BlockComment = Code"
| "resume m = m"

section \<open>The file pipeline\<close>

text \<open>
  \<^verbatim>\<open>process_file\<close> reads a file, cleans it, optionally validates the cleaned text, optionally
  copies the original to a backup, and writes the cleaned text. The file system is a map from
  paths to contents, passed in and returned. What the source takes from its libraries and
  from external programs is a parameter of the model, collected in \<open>env\<close>:
  \<^item> \<open>suffix_lower\<close>: \<^verbatim>\<open>file_path.suffix.lower()\<close>;
  \<^item> \<open>ast_parse\<close>: whether \<^verbatim>\<open>ast.parse(content)\<close> returns (\<open>False\<close>: it raises);
  \<^item> \<open>temp_file\<close>: the path \<^verbatim>\<open>tempfile.NamedTemporaryFile\<close> creates, or the exception;
  \<^item> \<open>subprocess_run\<close>: the return code of \<^verbatim>\<open>subprocess.run(argv)\<close>, or the exception
    (the program is not installed). The three checkers are run in their syntax-only modes and
    are taken to leave the file system as it is;
  \<^item> \<open>copy_error\<close>, \<open>write_error\<close>: the exception \<^verbatim>\<open>shutil.copy\<close> or \<^verbatim>\<open>write_text\<close> raises for a
    path the process may not write, if any.
  An exception is the text that \<^verbatim>\<open>{e}\<close> prints.
\<close>

type_synonym path = string
type_synonym filesystem = "path \<rightharpoonup> string"

datatype exn = Exception string

fun message :: "exn \<Rightarrow> string" where
  "message (Exception m) = m"

record env =
  suffix_lower :: "path \<Rightarrow> string"
  ast_parse :: "string \<Rightarrow> bool"
  temp_file :: "filesystem \<Rightarrow> string \<Rightarrow> exn + path"
  subprocess_run :: "string list \<Rightarrow> filesystem \<Rightarrow> exn + int"
  read_error :: "path \<Rightarrow> exn"
  copy_error :: "path \<Rightarrow> exn option"
  write_error :: "path \<Rightarrow> exn option"

text \<open>
  \<^verbatim>\<open>subprocess.run(argv)\<close> followed by \<^verbatim>\<open>return result.returncode == 0\<close>, inside
  \<^verbatim>\<open>try ... except Exception: return False\<close>.
\<close>

definition check_with :: "env \<Rightarrow> string list \<Rightarrow> filesystem \<Rightarrow> bool" where
  "check_with e argv fs = (case subprocess_run e argv fs of Inl x \<Rightarrow> False | Inr rc \<Rightarrow> rc = 0)"

text \<open>\<^verbatim>\<open>validate_syntax(file_path, content)\<close>: the verdict and the file system it leaves
  (it writes the temporary file and never deletes it).\<close>

definition validate_syntax :: "env \<Rightarrow> filesystem \<Rightarrow> path \<Rightarrow> string \<Rightarrow> bool \<times> filesystem" where
  "validate_syntax e fs file_path content =
     (let sfx = suffix_lower e file_path in
      if sfx = ''.py'' then (ast_parse e content, fs)
      else
        (case temp_file e fs sfx of
           Inl x \<Rightarrow> (False, fs)
         | Inr tmp_path \<Rightarrow>
             (let fs1 = fs(tmp_path \<mapsto> content) in
              if sfx \<in> {''.js'', ''.ts''} then (check_with e [''node'', ''--check'', tmp_path] fs1, fs1)
              else if sfx = ''.php'' then (check_with e [''php'', ''-l'', tmp_path] fs1, fs1)
              else if sfx \<in> {''.c'', ''.cpp''} then
                (check_with e [''gcc'', ''-fsyntax-only'', tmp_path] fs1, fs1)
              else (True, fs1))))"

text \<open>
  The body of the \<^verbatim>\<open>try\<close> in \<^verbatim>\<open>process_file\<close>: \<open>Inl\<close> is a raised exception, together with
  the file system at that moment; \<open>Inr\<close> is the returned outcome string.
\<close>

definition process_file_body ::
  "env \<Rightarrow> filesystem \<Rightarrow> path \<Rightarrow> bool \<Rightarrow> bool \<Rightarrow> bool \<Rightarrow> (exn + string) \<times> filesystem" where
  "process_file_body e fs file_path backup validate dry_run =
     (case fs file_path of
        None \<Rightarrow> (Inl (read_error e file_path), fs)
      | Some content \<Rightarrow>
          (let cleaned = remove_comments_safely content (suffix_lower e file_path);
               (valid, fs1) = (if validate then validate_syntax e fs file_path cleaned
                               else (True, fs))
           in
           if validate \<and> \<not> valid then (Inr (''[SKIPPED - INVALID SYNTAX] '' @ file_path), fs1)
           else if dry_run then (Inr (''[DRY RUN] '' @ file_path), fs1)
           else
             (let bak = file_path @ ''.bak'';
                  copied =
                    (if backup then
                       (case (fs1 file_path, copy_error e bak) of
                          (Some original, None) \<Rightarrow> Inr (fs1(bak \<mapsto> original))
                        | (None, _) \<Rightarrow> Inl (read_error e file_path)
                        | (_, Some x) \<Rightarrow> Inl x)
                     else Inr fs1)
              in
              case copied of
                Inl x \<Rightarrow> (Inl x, fs1)
              | Inr fs2 \<Rightarrow>
                  (case write_error e file_path of
                     Some x \<Rightarrow> (Inl x, fs2)
                   | None \<Rightarrow> (Inr (''[OK] '' @ file_path), fs2(file_path \<mapsto> cleaned))))))"

text \<open>\<^verbatim>\<open>process_file\<close>: the \<^verbatim>\<open>except Exception as e\<close> turns every exception into an outcome.\<close>

definition process_file ::
  "env \<Rightarrow> filesystem \<Rightarrow> path \<Rightarrow> bool \<Rightarrow> bool \<Rightarrow> bool \<Rightarrow> string \<times> filesystem" where
  "process_file e fs file_path backup validate dry_run =
     (case process_file_body e fs file_path backup validate dry_run of
        (Inr outcome, fs') \<Rightarrow> (outcome, fs')
      | (Inl x, fs') \<Rightarrow> (''[ERROR] '' @ file_path @ '' - '' @ message x, fs'))"

text \<open>
  The loop of \<^verbatim>\<open>main\<close> over the files: \<^verbatim>\<open>executor.map(process_file, files, ...)\<close> yields one
  outcome per file, in the order of \<open>files\<close>. The model runs the files one after the other;
  the worker pool is left out.
\<close>

fun process_all ::
  "env \<Rightarrow> filesystem \<Rightarrow> path list \<Rightarrow> bool \<Rightarrow> bool \<Rightarrow> bool \<Rightarrow> string list \<times> filesystem" where
  "process_all e fs [] backup validate dry_run = ([], fs)"
| "process_all e fs (file_path # files) backup validate dry_run =
     (let (r, fs1) = process_file e fs file_path backup validate dry_run;
          (rs, fs2) = process_all e fs1 files backup validate dry_run
      in (r # rs, fs2))"

text \<open>
  An environment for a concrete run: every file has the suffix \<^verbatim>\<open>.js\<close>, the temporary
  file is \<^verbatim>\<open>/tmp/t.js\<close>, and the checker returns code 1.
\<close>

definition demo_env :: env where
  "demo_env = \<lparr>suffix_lower = (\<lambda>p. ''.js''), ast_parse = (\<lambda>c. True),
               temp_file = (\<lambda>fs sfx. Inr ''/tmp/t.js''),
               subprocess_run = (\<lambda>argv fs. Inr 1),
               read_error = (\<lambda>p. Exception ''No such file or directory''),
               copy_error = (\<lambda>p. None), write_error = (\<lambda>p. None)\<rparr>"

section \<open>Basic facts about the loop\<close>

lemma scan_loop_invariant:
  "P st \<Longrightarrow> (\<And>s. P s \<Longrightarrow> i s < length content \<Longrightarrow> P (step content sfx s)) \<Longrightarrow>
   P (scan_loop content sfx st) \<and> length content \<le> i (scan_loop content sfx st)"
proof (induction content sfx st rule: scan_loop.induct)
  case (1 content sfx st)
  show ?case
  proof (cases "i st < length content")
    case True
    have eq: "scan_loop content sfx st = scan_loop content sfx (step content sfx st)"
      using True scan_loop.simps[of content sfx st] by simp
    have "P (step content sfx st)" using "1.prems"(1) True by (rule "1.prems"(2))
    then show ?thesis using "1.IH"[OF True] "1.prems"(2) eq by simp
  next
    case False
    then show ?thesis using "1.prems"(1) scan_loop.simps[of content sfx st] by simp
  qed
qed

lemma run_Suc_right:
  "run (Suc n) content sfx st =
     (if i (run n content sfx st) < length content
      then step content sfx (run n content sfx st) else run n content sfx st)"
proof (induction n arbitrary: st)
  case 0
  show ?case by simp
next
  case (Suc n)
  show ?case
  proof (cases "i st < length content")
    case True
    then show ?thesis using Suc[of "step content sfx st"] by simp
  next
    case False
    then show ?thesis by simp
  qed
qed

lemma scan_loop_run: "scan_loop content sfx (run n content sfx st) = scan_loop content sfx st"
proof (induction n arbitrary: st)
  case 0
  show ?case by simp
next
  case (Suc n)
  show ?case using Suc[of "step content sfx st"] scan_loop.simps[of content sfx st] by simp
qed

lemma run_exits: "length content - i st \<le> n \<Longrightarrow> length content \<le> i (run n content sfx st)"
proof (induction n arbitrary: st)
  case 0
  then show ?case by simp
next
  case (Suc n)
  show ?case
  proof (cases "i st < length content")
    case True
    have "length content - i (step content sfx st) \<le> n"
      using Suc.prems True step_increases[of st content sfx] by arith
    then show ?thesis using Suc.IH True by simp
  next
    case False
    then show ?thesis by simp
  qed
qed

lemma scan_loop_eq_run:
  "length content - i st \<le> n \<Longrightarrow> scan_loop content sfx st = run n content sfx st"
proof -
  assume "length content - i st \<le> n"
  then have "length content \<le> i (run n content sfx st)" by (rule run_exits)
  then have "scan_loop content sfx (run n content sfx st) = run n content sfx st"
    using scan_loop.simps[of content sfx "run n content sfx st"] by simp
  then show ?thesis by (simp add: scan_loop_run)
qed

section \<open>Facts about one iteration\<close>

lemma step_exclusive: "exclusive st \<Longrightarrow> exclusive (step content sfx st)"
  by (cases "in_line_comment st"; cases "in_block_comment st"; cases "in_string st";
      simp add: step_def Let_def exclusive_def split: option.split)

lemma step_result_cases:
  "result (step content sfx st) = result st \<or>
   (result (step content sfx st) = result st @ [content ! i st] \<and> i (step content sfx st) = i st + 1)"
  unfolding step_def Let_def by (simp split: option.split)

lemma step_result_prefix: "prefix (result st) (result (step content sfx st))"
  using step_result_cases[of content sfx st] by auto

lemma subseq_take_mono: "subseq r (take k xs) \<Longrightarrow> k \<le> m \<Longrightarrow> subseq r (take m xs)"
proof -
  assume a: "subseq r (take k xs)" and b: "k \<le> m"
  have "take k xs = take k (take m xs)" using b by (simp add: min_def)
  then have "prefix (take k xs) (take m xs)" by (metis take_is_prefix)
  then have "subseq (take k xs) (take m xs)" by (rule prefix_imp_subseq)
  with a show ?thesis by (rule subseq_order.trans)
qed

lemma step_subseq:
  assumes "subseq (result st) (take (i st) content)" and "i st < length content"
  shows "subseq (result (step content sfx st)) (take (i (step content sfx st)) content)"
proof -
  from step_result_cases[of content sfx st] show ?thesis
  proof
    assume "result (step content sfx st) = result st"
    moreover have "i st \<le> i (step content sfx st)"
      using step_increases[of st content sfx] by simp
    ultimately show ?thesis using assms(1) subseq_take_mono by simp
  next
    assume h: "result (step content sfx st) = result st @ [content ! i st] \<and>
               i (step content sfx st) = i st + 1"
    have "take (i st + 1) content = take (i st) content @ [content ! i st]"
      using assms(2) by (simp add: take_Suc_conv_app_nth)
    then show ?thesis using h assms(1) by simp
  qed
qed

section \<open>C9: the output is a subsequence of the input\<close>

text \<open>
  Claim C9. For every input text and every suffix, the output of
  \<open>remove_comments_safely\<close> is a subsequence of the input (\<open>subseq\<close>: the characters of the
  output are characters of the input at strictly increasing positions, so nothing is invented,
  duplicated or reordered), and the output is no longer than the input.
\<close>

theorem output_is_subsequence:
  "subseq (remove_comments_safely content sfx) content \<and>
   length (remove_comments_safely content sfx) \<le> length content"
proof -
  let ?P = "\<lambda>st. subseq (result st) (take (i st) content)"
  have "?P init_state" by (simp add: init_state_def)
  then have "?P (scan_loop content sfx init_state)"
    using scan_loop_invariant[of ?P init_state content sfx] step_subseq by blast
  then have "subseq (remove_comments_safely content sfx) (take (i (scan_loop content sfx init_state)) content)"
    by (simp add: remove_comments_safely_def)
  then have s: "subseq (remove_comments_safely content sfx) content"
    using subseq_order.trans prefix_imp_subseq take_is_prefix by blast
  then show ?thesis using list_emb_length by blast
qed

theorem output_is_subsequence_witness:
  "subseq (remove_comments_safely ''a = 1 // x'' ''.js'') ''a = 1 // x'' \<and>
   length (remove_comments_safely ''a = 1 // x'' ''.js'') \<le> length ''a = 1 // x'' \<and>
   remove_comments_safely ''a = 1 // x'' ''.js'' = ''a = 1 ''"
  using output_is_subsequence[of "''a = 1 // x''" "''.js''"]
  by (simp add: remove_comments_safely_def) code_simp

section \<open>C6: an unrecognized suffix leaves the text unchanged\<close>

lemma DEFAULT_EXTENSIONS_set:
  "set DEFAULT_EXTENSIONS = {''.py''} \<union> c_like_suffixes \<union> {''.css''} \<union> markup_suffixes"
  unfolding DEFAULT_EXTENSIONS_def c_like_suffixes_def markup_suffixes_def by auto

lemma step_none:
  assumes "sfx \<noteq> ''.py''" "sfx \<notin> c_like_suffixes" "sfx \<noteq> ''.css''" "sfx \<notin> markup_suffixes"
    and "\<not> in_line_comment st" "\<not> in_block_comment st"
  shows "step content sfx st = st\<lparr>result := result st @ [content ! i st], i := i st + 1,
           in_string := in_string (step content sfx st),
           string_char := string_char (step content sfx st)\<rparr>"
  using assms unfolding step_def Let_def markup_end_def by simp

lemma step_none_inv:
  assumes "sfx \<noteq> ''.py''" "sfx \<notin> c_like_suffixes" "sfx \<noteq> ''.css''" "sfx \<notin> markup_suffixes"
    and "result st = take (i st) content \<and> \<not> in_line_comment st \<and> \<not> in_block_comment st"
    and "i st < length content"
  shows "result (step content sfx st) = take (i (step content sfx st)) content \<and>
         \<not> in_line_comment (step content sfx st) \<and> \<not> in_block_comment (step content sfx st)"
proof -
  have "step content sfx st = st\<lparr>result := result st @ [content ! i st], i := i st + 1,
           in_string := in_string (step content sfx st),
           string_char := string_char (step content sfx st)\<rparr>" (is "_ = ?r")
    using assms by (intro step_none) simp_all
  then have "result (step content sfx st) = result ?r" "i (step content sfx st) = i ?r"
    "in_line_comment (step content sfx st) = in_line_comment ?r"
    "in_block_comment (step content sfx st) = in_block_comment ?r" by simp_all
  then show ?thesis using assms(5,6) by (simp add: take_Suc_conv_app_nth)
qed

text \<open>
  Claim C6. When the suffix is none of the recognized extensions (\<^verbatim>\<open>.py\<close>, the c-like set,
  \<^verbatim>\<open>.css\<close>, \<^verbatim>\<open>.html\<close>, \<^verbatim>\<open>.htm\<close>), the scanner is the identity:
  \<open>remove_comments_safely text suffix = text\<close> for every text.
\<close>

theorem unrecognized_suffix_identity:
  assumes "sfx \<notin> set DEFAULT_EXTENSIONS"
  shows "remove_comments_safely content sfx = content"
proof -
  have n: "sfx \<noteq> ''.py''" "sfx \<notin> c_like_suffixes" "sfx \<noteq> ''.css''" "sfx \<notin> markup_suffixes"
    using assms unfolding DEFAULT_EXTENSIONS_set by simp_all
  let ?P = "\<lambda>st. result st = take (i st) content \<and> \<not> in_line_comment st \<and> \<not> in_block_comment st"
  have "?P init_state" by (simp add: init_state_def)
  moreover have "\<And>s. ?P s \<Longrightarrow> i s < length content \<Longrightarrow> ?P (step content sfx s)"
    using step_none_inv[OF n] by blast
  ultimately have "?P (scan_loop content sfx init_state) \<and>
      length content \<le> i (scan_loop content sfx init_state)"
    by (rule scan_loop_invariant)
  then show ?thesis by (simp add: remove_comments_safely_def)
qed

theorem unrecognized_suffix_identity_witness:
  "''.txt'' \<notin> set DEFAULT_EXTENSIONS \<and>
   remove_comments_safely ''a /* b */ # c // d <!-- e -->'' ''.txt'' = ''a /* b */ # c // d <!-- e -->''"
  using unrecognized_suffix_identity[of "''.txt''" "''a /* b */ # c // d <!-- e -->''"]
  by (simp add: DEFAULT_EXTENSIONS_def)

section \<open>C8: the scanner terminates\<close>

lemma step_advance:
  "i (step content sfx st) = i st + 1 \<or> i (step content sfx st) = i st + 2 \<or>
   (\<exists>e. markup_end content sfx (i st) = Some e \<and> i (step content sfx st) = e + 3)"
  unfolding step_def Let_def by (simp split: option.split)

text \<open>
  Claim C8. The scanner terminates on every input. Each iteration strictly increases the
  index \<open>i\<close>: by 1 or 2 in the character branches, and to \<open>end + 3\<close> with \<open>i + 4 \<le> end\<close> in
  the markup skip. So the guard \<open>i < len(content)\<close> is false after at most
  \<open>len(content)\<close> iterations: the loop bounded by that many iterations has left the loop,
  and it is the loop itself.
\<close>

theorem scanner_terminates:
  "i st < i (step content sfx st) \<and>
   (i (step content sfx st) = i st + 1 \<or> i (step content sfx st) = i st + 2 \<or>
    (\<exists>e. markup_end content sfx (i st) = Some e \<and> i st + 4 \<le> e \<and>
         i (step content sfx st) = e + 3)) \<and>
   length content \<le> i (run (length content) content sfx init_state) \<and>
   scan_loop content sfx init_state = run (length content) content sfx init_state \<and>
   remove_comments_safely content sfx = result (run (length content) content sfx init_state)"
proof -
  have a: "i st < i (step content sfx st)" by (rule step_increases)
  have b: "i (step content sfx st) = i st + 1 \<or> i (step content sfx st) = i st + 2 \<or>
    (\<exists>e. markup_end content sfx (i st) = Some e \<and> i st + 4 \<le> e \<and>
         i (step content sfx st) = e + 3)"
    using step_advance[of content sfx st] markup_end_ge[of content sfx "i st"] by blast
  have c: "length content \<le> i (run (length content) content sfx init_state)"
    by (rule run_exits) simp
  have d: "scan_loop content sfx init_state = run (length content) content sfx init_state"
    by (rule scan_loop_eq_run) simp
  show ?thesis using a b c d by (simp add: remove_comments_safely_def)
qed

theorem scanner_terminates_witness:
  "i init_state < i (step ''<!--a-->b'' ''.html'' init_state) \<and>
   i (step ''<!--a-->b'' ''.html'' init_state) = 8 \<and>
   length ''<!--a-->b'' \<le> i (run (length ''<!--a-->b'') ''<!--a-->b'' ''.html'' init_state) \<and>
   remove_comments_safely ''<!--a-->b'' ''.html'' = ''b''"
proof -
  have e1: "i (step ''<!--a-->b'' ''.html'' init_state) = 8" by code_simp
  have e2: "remove_comments_safely ''<!--a-->b'' ''.html'' = ''b''" by code_simp
  note t = scanner_terminates[of init_state "''<!--a-->b''" "''.html''"]
  from t have "i init_state < i (step ''<!--a-->b'' ''.html'' init_state)"
    and "length ''<!--a-->b'' \<le> i (run (length ''<!--a-->b'') ''<!--a-->b'' ''.html'' init_state)"
    by blast+
  then show ?thesis using e1 e2 by blast
qed

section \<open>The iteration in each mode, and the states of a run\<close>

lemma step_line_comment:
  "in_line_comment st \<Longrightarrow>
   step content sfx st =
     (if content ! i st = NEWLINE
      then st\<lparr>in_line_comment := False, result := result st @ [NEWLINE], i := i st + 1\<rparr>
      else st\<lparr>i := i st + 1\<rparr>)"
  unfolding step_def Let_def by simp

lemma step_block_comment:
  "\<not> in_line_comment st \<Longrightarrow> in_block_comment st \<Longrightarrow>
   step content sfx st =
     (if content ! i st = CHR ''*'' \<and> i st + 1 < length content \<and> content ! (i st + 1) = CHR ''/''
      then st\<lparr>in_block_comment := False, i := i st + 2\<rparr>
      else st\<lparr>i := i st + 1\<rparr>)"
  unfolding step_def Let_def by simp

lemma step_in_string:
  "\<not> in_line_comment st \<Longrightarrow> \<not> in_block_comment st \<Longrightarrow> in_string st \<Longrightarrow>
   step content sfx st =
     (if Some (content ! i st) = string_char st \<and> prev_char content (i st) \<noteq> BACKSLASH
      then st\<lparr>result := result st @ [content ! i st], in_string := False, i := i st + 1\<rparr>
      else st\<lparr>result := result st @ [content ! i st], i := i st + 1\<rparr>)"
  unfolding step_def Let_def by simp

lemma step_code_quote:
  "\<not> in_line_comment st \<Longrightarrow> \<not> in_block_comment st \<Longrightarrow> \<not> in_string st \<Longrightarrow>
   content ! i st \<in> {QUOTE1, QUOTE2, BACKTICK} \<Longrightarrow>
   step content sfx st =
     st\<lparr>in_string := True, string_char := Some (content ! i st),
        result := result st @ [content ! i st], i := i st + 1\<rparr>"
  unfolding step_def Let_def by simp

lemma step_code_in_string:
  "\<not> in_line_comment st \<Longrightarrow> \<not> in_block_comment st \<Longrightarrow> \<not> in_string st \<Longrightarrow>
   in_string (step content sfx st) = (content ! i st \<in> {QUOTE1, QUOTE2, BACKTICK})"
  unfolding step_def Let_def by (simp split: option.split)

lemma step_comment_not_in_string:
  "in_line_comment st \<or> in_block_comment st \<Longrightarrow> in_string (step content sfx st) = in_string st"
  unfolding step_def Let_def by auto

lemma state_at_Suc:
  "state_at content sfx (Suc n) =
     (if i (state_at content sfx n) < length content
      then step content sfx (state_at content sfx n) else state_at content sfx n)"
  unfolding state_at_def by (rule run_Suc_right)

lemma state_at_exclusive: "exclusive (state_at content sfx n)"
proof (induction n)
  case 0
  show ?case by (simp add: state_at_def exclusive_def init_state_def)
next
  case (Suc n)
  then show ?case by (simp add: state_at_Suc step_exclusive)
qed

lemma scan_loop_state_at:
  "scan_loop content sfx (state_at content sfx n) = scan_loop content sfx init_state"
  unfolding state_at_def by (rule scan_loop_run)

lemma scan_loop_result_prefix: "prefix (result st) (result (scan_loop content sfx st))"
proof -
  let ?P = "\<lambda>s. prefix (result st) (result s)"
  have "?P st" by simp
  moreover have "\<And>s. ?P s \<Longrightarrow> i s < length content \<Longrightarrow> ?P (step content sfx s)"
    using step_result_prefix prefix_order.trans by blast
  ultimately have "?P (scan_loop content sfx st) \<and> length content \<le> i (scan_loop content sfx st)"
    by (rule scan_loop_invariant)
  then show ?thesis by simp
qed

lemma state_at_result_prefix:
  "prefix (result (state_at content sfx n)) (remove_comments_safely content sfx)"
  using scan_loop_result_prefix[of "state_at content sfx n" content sfx]
  by (simp add: scan_loop_state_at remove_comments_safely_def)

section \<open>C2: string literals are copied verbatim\<close>

lemma in_string_step:
  assumes "exclusive st" "in_string st"
  shows "result (step content sfx st) = result st @ [content ! i st]"
    and "i (step content sfx st) = i st + 1"
proof -
  have n: "\<not> in_line_comment st" "\<not> in_block_comment st"
    using assms by (auto simp: exclusive_def)
  show "result (step content sfx st) = result st @ [content ! i st]"
    by (simp add: step_in_string[OF n assms(2)])
  show "i (step content sfx st) = i st + 1"
    by (simp add: step_in_string[OF n assms(2)])
qed

lemma string_run:
  assumes "\<forall>k<m. in_string (state_at content sfx (n + k))"
    and "i (state_at content sfx n) + m \<le> length content"
  shows "i (state_at content sfx (n + m)) = i (state_at content sfx n) + m \<and>
         result (state_at content sfx (n + m)) =
           result (state_at content sfx n) @ take m (drop (i (state_at content sfx n)) content)"
  using assms
proof (induction m)
  case 0
  show ?case by simp
next
  case (Suc m)
  let ?s = "state_at content sfx (n + m)"
  let ?p = "i (state_at content sfx n)"
  have ih: "i ?s = ?p + m"
    "result ?s = result (state_at content sfx n) @ take m (drop ?p content)"
    using Suc by simp_all
  have lt: "i ?s < length content" using ih(1) Suc.prems(2) by simp
  have str: "in_string ?s" using Suc.prems(1) by simp
  have nxt: "state_at content sfx (n + Suc m) = step content sfx ?s"
    using lt by (simp add: state_at_Suc)
  have r: "result (step content sfx ?s) = result ?s @ [content ! i ?s]"
    and j: "i (step content sfx ?s) = i ?s + 1"
    using in_string_step[OF state_at_exclusive str] by simp_all
  have "take (Suc m) (drop ?p content) = take m (drop ?p content) @ [content ! (?p + m)]"
    using lt ih(1) by (simp add: take_Suc_conv_app_nth)
  then show ?case using nxt r j ih by simp
qed

text \<open>
  Claim C2. Every character inside a string literal appears verbatim in the output.
  A position is inside a string literal when the loop reaches it with \<open>in_string\<close> set
  (the state after a quote was read in code mode, not yet closed). If the \<open>m\<close> iterations
  from iteration \<open>n\<close> on all start inside a string, they advance by one character each and
  append exactly the \<open>m\<close> input characters they read, whatever these are (also \<^verbatim>\<open>//\<close>,
  \<^verbatim>\<open>/*\<close>, \<^verbatim>\<open>#\<close>, \<^verbatim>\<open><!--\<close>), and what has been appended is a prefix of the final output.
\<close>

theorem string_literal_preserved:
  assumes "\<forall>k<m. in_string (state_at content sfx (n + k))"
    and "i (state_at content sfx n) + m \<le> length content"
  shows "i (state_at content sfx (n + m)) = i (state_at content sfx n) + m \<and>
         result (state_at content sfx (n + m)) =
           result (state_at content sfx n) @ take m (drop (i (state_at content sfx n)) content) \<and>
         prefix (result (state_at content sfx n) @ take m (drop (i (state_at content sfx n)) content))
           (remove_comments_safely content sfx)"
  using string_run[OF assms] state_at_result_prefix[of content sfx "n + m"] by simp

theorem string_literal_preserved_witness:
  "in_string (state_at ''a='//x';//y'' ''.js'' 3) \<and>
   in_string (state_at ''a='//x';//y'' ''.js'' 4) \<and>
   in_string (state_at ''a='//x';//y'' ''.js'' 5) \<and>
   i (state_at ''a='//x';//y'' ''.js'' 3) + 3 \<le> length ''a='//x';//y'' \<and>
   result (state_at ''a='//x';//y'' ''.js'' 3) = ''a='' @ [QUOTE1] \<and>
   take 3 (drop (i (state_at ''a='//x';//y'' ''.js'' 3)) ''a='//x';//y'') = ''//x'' \<and>
   result (state_at ''a='//x';//y'' ''.js'' (3 + 3)) = ''a='//x'' \<and>
   prefix ''a='//x'' (remove_comments_safely ''a='//x';//y'' ''.js'') \<and>
   remove_comments_safely ''a='//x';//y'' ''.js'' = ''a='//x';''"
proof -
  let ?C = "''a='//x';//y''" and ?S = "''.js''"
  have a: "in_string (state_at ?C ?S 3)" "in_string (state_at ?C ?S 4)"
    "in_string (state_at ?C ?S 5)"
    by code_simp+
  have b: "i (state_at ?C ?S 3) = 3" "result (state_at ?C ?S 3) = ''a='' @ [QUOTE1]"
    by code_simp+
  have c: "remove_comments_safely ?C ?S = ''a='//x';''" by code_simp
  have h: "\<forall>k<3. in_string (state_at ?C ?S (3 + k))"
  proof (intro allI impI)
    fix k :: nat
    assume "k < 3"
    then consider "k = 0" | "k = 1" | "k = 2" by linarith
    then show "in_string (state_at ?C ?S (3 + k))" by cases (simp_all add: a)
  qed
  have l: "i (state_at ?C ?S 3) + 3 \<le> length ?C" by (simp add: b)
  note t = string_literal_preserved[OF h l]
  show ?thesis using t a b c by simp
qed

section \<open>C4: when a string literal ends\<close>

lemma string_opened:
  "in_string (state_at content sfx n) \<Longrightarrow>
   \<exists>m<n. \<not> in_line_comment (state_at content sfx m) \<and>
         \<not> in_block_comment (state_at content sfx m) \<and>
         \<not> in_string (state_at content sfx m) \<and>
         i (state_at content sfx m) < i (state_at content sfx n) \<and>
         content ! i (state_at content sfx m) \<in> {QUOTE1, QUOTE2, BACKTICK} \<and>
         string_char (state_at content sfx n) = Some (content ! i (state_at content sfx m)) \<and>
         (\<forall>j. m < j \<and> j \<le> n \<longrightarrow> in_string (state_at content sfx j))"
proof (induction n)
  case 0
  then show ?case by (simp add: state_at_def init_state_def)
next
  case (Suc n)
  let ?s = "state_at content sfx n"
  let ?Q = "\<lambda>m k. \<not> in_line_comment (state_at content sfx m) \<and>
         \<not> in_block_comment (state_at content sfx m) \<and>
         \<not> in_string (state_at content sfx m) \<and>
         i (state_at content sfx m) < i (state_at content sfx k) \<and>
         content ! i (state_at content sfx m) \<in> {QUOTE1, QUOTE2, BACKTICK} \<and>
         string_char (state_at content sfx k) = Some (content ! i (state_at content sfx m)) \<and>
         (\<forall>j. m < j \<and> j \<le> k \<longrightarrow> in_string (state_at content sfx j))"
  have ex: "exclusive ?s" by (rule state_at_exclusive)
  show ?case
  proof (cases "in_string ?s")
    case True
    then obtain m where m: "m < n" "?Q m n" using Suc.IH by blast
    have n: "\<not> in_line_comment ?s" "\<not> in_block_comment ?s"
      using ex True by (auto simp: exclusive_def)
    have keep: "string_char (state_at content sfx (Suc n)) = string_char ?s"
      "i ?s \<le> i (state_at content sfx (Suc n))"
      by (simp_all add: state_at_Suc step_in_string[OF n True])
    have "\<forall>j. m < j \<and> j \<le> Suc n \<longrightarrow> in_string (state_at content sfx j)"
      using m(2) Suc.prems by (metis le_Suc_eq)
    then have "?Q m (Suc n)" using m(2) keep by auto
    then show ?thesis using m(1) less_Suc_eq by blast
  next
    case False
    have lt: "i ?s < length content" using False Suc.prems by (auto simp: state_at_Suc split: if_splits)
    then have nxt: "state_at content sfx (Suc n) = step content sfx ?s" by (simp add: state_at_Suc)
    have n: "\<not> in_line_comment ?s" "\<not> in_block_comment ?s"
      using step_comment_not_in_string[of ?s content sfx] False Suc.prems nxt by auto
    have q: "content ! i ?s \<in> {QUOTE1, QUOTE2, BACKTICK}"
      using step_code_in_string[OF n False, of content sfx] Suc.prems nxt by simp
    have "string_char (state_at content sfx (Suc n)) = Some (content ! i ?s)"
      "i ?s < i (state_at content sfx (Suc n))"
      by (simp_all add: nxt step_code_quote[OF n False q])
    moreover have "\<forall>j. n < j \<and> j \<le> Suc n \<longrightarrow> in_string (state_at content sfx j)"
      using Suc.prems by (metis le_Suc_eq not_less)
    ultimately have "?Q n (Suc n)" using n False q by blast
    then show ?thesis by blast
  qed
qed

text \<open>
  Claim C4. While in string mode the scanner leaves it exactly when the current character
  equals the opening delimiter and the character just before it in the input is not a
  backslash. Here the scanner is at iteration \<open>n\<close> inside a string: the string was opened at
  an earlier iteration \<open>m\<close>, in code mode, by the quote character at that position, which
  is the \<open>string_char\<close>, and every iteration since has been in string mode. The next state
  is in string mode unless the current character is that delimiter and its predecessor is
  not a backslash, and it is never in a comment mode. In particular a delimiter after two
  backslashes does not close the string.
\<close>

theorem string_exit_condition:
  assumes "in_string (state_at content sfx n)"
    and "i (state_at content sfx n) < length content"
  shows "0 < i (state_at content sfx n) \<and>
    (\<exists>m<n. \<not> in_line_comment (state_at content sfx m) \<and>
         \<not> in_block_comment (state_at content sfx m) \<and>
         \<not> in_string (state_at content sfx m) \<and>
         i (state_at content sfx m) < i (state_at content sfx n) \<and>
         content ! i (state_at content sfx m) \<in> {QUOTE1, QUOTE2, BACKTICK} \<and>
         string_char (state_at content sfx n) = Some (content ! i (state_at content sfx m)) \<and>
         (\<forall>j. m < j \<and> j \<le> n \<longrightarrow> in_string (state_at content sfx j))) \<and>
    in_string (state_at content sfx (Suc n)) =
      (\<not> (Some (content ! i (state_at content sfx n)) = string_char (state_at content sfx n) \<and>
          content ! (i (state_at content sfx n) - 1) \<noteq> BACKSLASH)) \<and>
    \<not> in_line_comment (state_at content sfx (Suc n)) \<and>
    \<not> in_block_comment (state_at content sfx (Suc n)) \<and>
    (2 \<le> i (state_at content sfx n) \<and>
     content ! (i (state_at content sfx n) - 2) = BACKSLASH \<and>
     content ! (i (state_at content sfx n) - 1) = BACKSLASH \<longrightarrow>
       in_string (state_at content sfx (Suc n)))"
proof -
  let ?s = "state_at content sfx n"
  have op: "\<exists>m<n. \<not> in_line_comment (state_at content sfx m) \<and>
         \<not> in_block_comment (state_at content sfx m) \<and>
         \<not> in_string (state_at content sfx m) \<and>
         i (state_at content sfx m) < i ?s \<and>
         content ! i (state_at content sfx m) \<in> {QUOTE1, QUOTE2, BACKTICK} \<and>
         string_char ?s = Some (content ! i (state_at content sfx m)) \<and>
         (\<forall>j. m < j \<and> j \<le> n \<longrightarrow> in_string (state_at content sfx j))"
    using string_opened[OF assms(1)] .
  then have pos: "0 < i ?s" by auto
  have n: "\<not> in_line_comment ?s" "\<not> in_block_comment ?s"
    using state_at_exclusive[of content sfx n] assms(1) by (auto simp: exclusive_def)
  have nxt: "state_at content sfx (Suc n) = step content sfx ?s"
    using assms(2) by (simp add: state_at_Suc)
  have pc: "prev_char content (i ?s) = content ! (i ?s - 1)"
    using pos by (simp add: prev_char_def)
  have ex: "in_string (state_at content sfx (Suc n)) =
      (\<not> (Some (content ! i ?s) = string_char ?s \<and> content ! (i ?s - 1) \<noteq> BACKSLASH))"
    unfolding nxt step_in_string[OF n assms(1)] pc using assms(1) by simp
  have nc: "\<not> in_line_comment (state_at content sfx (Suc n))"
    "\<not> in_block_comment (state_at content sfx (Suc n))"
    unfolding nxt step_in_string[OF n assms(1)] using n by simp_all
  show ?thesis using pos op ex nc by blast
qed

text \<open>The input is \<^verbatim>\<open>'a\\'//b\<close>: a quote, a, two backslashes, a quote, //b.\<close>

theorem string_exit_condition_witness:
  "in_string (state_at [QUOTE1, CHR ''a'', BACKSLASH, BACKSLASH, QUOTE1, CHR ''/'', CHR ''/'', CHR ''b''] ''.js'' 4) \<and>
   i (state_at [QUOTE1, CHR ''a'', BACKSLASH, BACKSLASH, QUOTE1, CHR ''/'', CHR ''/'', CHR ''b''] ''.js'' 4) = 4 \<and>
   4 < length [QUOTE1, CHR ''a'', BACKSLASH, BACKSLASH, QUOTE1, CHR ''/'', CHR ''/'', CHR ''b''] \<and>
   [QUOTE1, CHR ''a'', BACKSLASH, BACKSLASH, QUOTE1, CHR ''/'', CHR ''/'', CHR ''b''] ! 4 = QUOTE1 \<and>
   string_char (state_at [QUOTE1, CHR ''a'', BACKSLASH, BACKSLASH, QUOTE1, CHR ''/'', CHR ''/'', CHR ''b''] ''.js'' 4)
     = Some QUOTE1 \<and>
   in_string (state_at [QUOTE1, CHR ''a'', BACKSLASH, BACKSLASH, QUOTE1, CHR ''/'', CHR ''/'', CHR ''b''] ''.js'' (Suc 4)) \<and>
   remove_comments_safely [QUOTE1, CHR ''a'', BACKSLASH, BACKSLASH, QUOTE1, CHR ''/'', CHR ''/'', CHR ''b''] ''.js''
     = [QUOTE1, CHR ''a'', BACKSLASH, BACKSLASH, QUOTE1, CHR ''/'', CHR ''/'', CHR ''b'']"
proof -
  let ?C = "[QUOTE1, CHR ''a'', BACKSLASH, BACKSLASH, QUOTE1, CHR ''/'', CHR ''/'', CHR ''b'']" and ?S = "''.js''"
  have a: "in_string (state_at ?C ?S 4)" by code_simp
  have b: "i (state_at ?C ?S 4) = 4" by code_simp
  have c: "string_char (state_at ?C ?S 4) = Some QUOTE1" by code_simp
  have d: "remove_comments_safely ?C ?S = ?C" by code_simp
  have l: "i (state_at ?C ?S 4) < length ?C" by (simp add: b)
  note t = string_exit_condition[OF a l]
  have "in_string (state_at ?C ?S (Suc 4))" using t by (simp add: b)
  then show ?thesis using a b c d by simp
qed

section \<open>C3: what a removed comment contributes to the output\<close>

lemma scan_loop_step:
  "i st < length content \<Longrightarrow> scan_loop content sfx st = scan_loop content sfx (step content sfx st)"
  using scan_loop.simps[of content sfx st] by simp

lemma scan_loop_exit: "length content \<le> i st \<Longrightarrow> scan_loop content sfx st = st"
  using scan_loop.simps[of content sfx st] by simp

lemma line_comment_skip:
  "in_line_comment st \<Longrightarrow> i st \<le> q \<Longrightarrow> q \<le> length content \<Longrightarrow>
   (\<forall>k. i st \<le> k \<and> k < q \<longrightarrow> content ! k \<noteq> NEWLINE) \<Longrightarrow>
   scan_loop content sfx st = scan_loop content sfx (st\<lparr>i := q\<rparr>)"
proof (induction "q - i st" arbitrary: st)
  case 0
  then have "st\<lparr>i := q\<rparr> = st" by simp
  then show ?case by simp
next
  case (Suc d)
  have lt: "i st < length content" "i st < q" using Suc.hyps(2) Suc.prems(3) by simp_all
  have nn: "content ! i st \<noteq> NEWLINE" using Suc.prems(4) lt(2) by simp
  have s: "step content sfx st = st\<lparr>i := i st + 1\<rparr>"
    using step_line_comment[OF Suc.prems(1), of content sfx] nn by simp
  have "scan_loop content sfx (st\<lparr>i := i st + 1\<rparr>) =
        scan_loop content sfx (st\<lparr>i := i st + 1\<rparr>\<lparr>i := q\<rparr>)"
    using Suc.hyps(2) Suc.prems lt by (intro Suc.hyps(1)) auto
  then show ?case using scan_loop_step[OF lt(1), of sfx] s by simp
qed

lemma block_comment_skip:
  "\<not> in_line_comment st \<Longrightarrow> in_block_comment st \<Longrightarrow> i st \<le> q \<Longrightarrow> q \<le> length content \<Longrightarrow>
   (\<forall>k. i st \<le> k \<and> k < q \<longrightarrow>
      \<not> (content ! k = CHR ''*'' \<and> k + 1 < length content \<and> content ! (k + 1) = CHR ''/'')) \<Longrightarrow>
   scan_loop content sfx st = scan_loop content sfx (st\<lparr>i := q\<rparr>)"
proof (induction "q - i st" arbitrary: st)
  case 0
  then have "st\<lparr>i := q\<rparr> = st" by simp
  then show ?case by simp
next
  case (Suc d)
  have lt: "i st < length content" "i st < q" using Suc.hyps(2) Suc.prems(4) by simp_all
  have nn: "\<not> (content ! i st = CHR ''*'' \<and> i st + 1 < length content \<and>
                content ! (i st + 1) = CHR ''/'')"
    using Suc.prems(5) lt(2) by simp
  have s: "step content sfx st = st\<lparr>i := i st + 1\<rparr>"
    using step_block_comment[OF Suc.prems(1,2), of content sfx] nn by auto
  have "scan_loop content sfx (st\<lparr>i := i st + 1\<rparr>) =
        scan_loop content sfx (st\<lparr>i := i st + 1\<rparr>\<lparr>i := q\<rparr>)"
    using Suc.hyps(2) Suc.prems lt by (intro Suc.hyps(1)) auto
  then show ?case using scan_loop_step[OF lt(1), of sfx] s by simp
qed

lemma no_close_inside:
  assumes "\<not> sublist ''*/'' (body @ ''*'')" "k < length body"
  shows "\<not> ((body @ ''*/'' @ rest) ! k = CHR ''*'' \<and> (body @ ''*/'' @ rest) ! Suc k = CHR ''/'')"
proof
  let ?xs = "body @ ''*''"
  assume h: "(body @ ''*/'' @ rest) ! k = CHR ''*'' \<and> (body @ ''*/'' @ rest) ! Suc k = CHR ''/''"
  have e: "body @ ''*/'' @ rest = ?xs @ ''/'' @ rest" by simp
  have k: "k < length ?xs" "Suc k < length ?xs" using assms(2) by simp_all
  have "?xs ! k = CHR ''*''" "?xs ! Suc k = CHR ''/''"
    using h k unfolding e by (simp_all only: nth_append if_True)
  then have "?xs = take k ?xs @ ''*/'' @ drop (Suc (Suc k)) ?xs"
    using k by (metis Cons_nth_drop_Suc append_Cons append_Nil append_take_drop_id)
  then have "sublist ''*/'' ?xs" unfolding sublist_def by blast
  then show False using assms(1) by simp
qed

lemma line_comment_opened:
  assumes "\<not> in_line_comment st" "\<not> in_block_comment st" "\<not> in_string st"
    and "i st = length pre"
    and "(sfx = ''.py'' \<and> opener = ''#'') \<or> (sfx \<in> c_like_suffixes \<and> opener = ''//'')"
    and "content = pre @ opener @ tl0"
  shows "step content sfx st = st\<lparr>in_line_comment := True, i := length pre + length opener\<rparr>"
  using assms(5)
proof
  assume "sfx = ''.py'' \<and> opener = ''#''"
  then show ?thesis using assms(1-4,6) unfolding step_def Let_def by (simp add: nth_append)
next
  assume "sfx \<in> c_like_suffixes \<and> opener = ''//''"
  then show ?thesis using assms(1-4,6) unfolding step_def Let_def by (simp add: nth_append)
qed

lemma block_comment_opened:
  assumes "\<not> in_line_comment st" "\<not> in_block_comment st" "\<not> in_string st"
    and "i st = length pre"
    and "sfx \<in> c_like_suffixes \<or> sfx = ''.css''"
    and "content = pre @ ''/*'' @ tl0"
  shows "step content sfx st = st\<lparr>in_block_comment := True, i := length pre + 2\<rparr>"
  using assms(5)
proof
  assume "sfx \<in> c_like_suffixes"
  then show ?thesis using assms(1-4,6) unfolding step_def Let_def by (simp add: nth_append)
next
  assume "sfx = ''.css''"
  then show ?thesis using assms(1-4,6) unfolding step_def Let_def by (simp add: nth_append)
qed

lemma line_comment_removed:
  assumes code: "\<not> in_line_comment st" "\<not> in_block_comment st" "\<not> in_string st"
    and pos: "i st = length pre"
    and op: "(sfx = ''.py'' \<and> opener = ''#'') \<or> (sfx \<in> c_like_suffixes \<and> opener = ''//'')"
    and body: "NEWLINE \<notin> set body"
  shows "content = pre @ opener @ body @ NEWLINE # rest \<Longrightarrow>
           scan_loop content sfx st =
           scan_loop content sfx (st\<lparr>result := result st @ [NEWLINE],
                                      i := length pre + length opener + length body + 1\<rparr>)"
    and "content = pre @ opener @ body \<Longrightarrow> result (scan_loop content sfx st) = result st"
proof -
  let ?a = "length pre + length opener"
  let ?q = "?a + length body"
  let ?s1 = "st\<lparr>in_line_comment := True, i := ?a\<rparr>"
  have ol: "0 < length opener" using op by auto
  have skip: "scan_loop content sfx st = scan_loop content sfx (?s1\<lparr>i := ?q\<rparr>)"
    if c: "content = pre @ opener @ body @ tl0" for tl0
  proof -
    have "i st < length content" using pos c ol by simp
    then have "scan_loop content sfx st = scan_loop content sfx ?s1"
      using scan_loop_step[of st content sfx] line_comment_opened[OF code pos op c] by simp
    moreover have "\<forall>k. i ?s1 \<le> k \<and> k < ?q \<longrightarrow> content ! k \<noteq> NEWLINE"
    proof (intro allI impI)
      fix k assume k: "i ?s1 \<le> k \<and> k < ?q"
      then have "k = length (pre @ opener) + (k - ?a)" by simp
      then have "content ! k = ((pre @ opener) @ (body @ tl0)) ! (length (pre @ opener) + (k - ?a))"
        unfolding c by simp
      also have "\<dots> = (body @ tl0) ! (k - ?a)" by (rule nth_append_length_plus)
      also have "\<dots> = body ! (k - ?a)" using k by (auto simp: nth_append)
      finally have "content ! k = body ! (k - ?a)" .
      moreover have "k - ?a < length body" using k by auto
      ultimately show "content ! k \<noteq> NEWLINE" using body by (metis nth_mem)
    qed
    then have "scan_loop content sfx ?s1 = scan_loop content sfx (?s1\<lparr>i := ?q\<rparr>)"
      by (intro line_comment_skip) (simp_all add: c)
    ultimately show ?thesis by simp
  qed
  {
    assume c: "content = pre @ opener @ body @ NEWLINE # rest"
    let ?s2 = "?s1\<lparr>i := ?q\<rparr>"
    have "i ?s2 < length content" "content ! i ?s2 = NEWLINE" unfolding c by (simp_all add: nth_append)
    then have "scan_loop content sfx ?s2 =
       scan_loop content sfx (?s2\<lparr>in_line_comment := False, result := result ?s2 @ [NEWLINE], i := i ?s2 + 1\<rparr>)"
      using scan_loop_step[of ?s2 content sfx] step_line_comment[of ?s2 content sfx] by simp
    moreover have "?s2\<lparr>in_line_comment := False, result := result ?s2 @ [NEWLINE], i := i ?s2 + 1\<rparr>
       = st\<lparr>result := result st @ [NEWLINE], i := ?q + 1\<rparr>"
      using code(1) by (cases st) simp
    ultimately show "scan_loop content sfx st =
           scan_loop content sfx (st\<lparr>result := result st @ [NEWLINE], i := ?q + 1\<rparr>)"
      using skip[OF c] by simp
  }
  {
    assume c: "content = pre @ opener @ body"
    then have c': "content = pre @ opener @ body @ []" by simp
    have "length content \<le> i (?s1\<lparr>i := ?q\<rparr>)" unfolding c by simp
    then have "scan_loop content sfx (?s1\<lparr>i := ?q\<rparr>) = ?s1\<lparr>i := ?q\<rparr>" by (rule scan_loop_exit)
    then show "result (scan_loop content sfx st) = result st" using skip[OF c'] by simp
  }
qed

lemma block_comment_removed:
  assumes code: "\<not> in_line_comment st" "\<not> in_block_comment st" "\<not> in_string st"
    and pos: "i st = length pre"
    and op: "sfx \<in> c_like_suffixes \<or> sfx = ''.css''"
    and body: "\<not> sublist ''*/'' (body @ ''*'')"
    and c: "content = pre @ ''/*'' @ body @ ''*/'' @ rest"
  shows "scan_loop content sfx st =
         scan_loop content sfx (st\<lparr>i := length pre + 2 + length body + 2\<rparr>)"
proof -
  let ?a = "length pre + 2"
  let ?q = "?a + length body"
  let ?s1 = "st\<lparr>in_block_comment := True, i := ?a\<rparr>"
  let ?s2 = "?s1\<lparr>i := ?q\<rparr>"
  have "i st < length content" using pos c by simp
  then have 1: "scan_loop content sfx st = scan_loop content sfx ?s1"
    using scan_loop_step[of st content sfx] block_comment_opened[OF code pos op c] by simp
  have "\<forall>k. i ?s1 \<le> k \<and> k < ?q \<longrightarrow>
      \<not> (content ! k = CHR ''*'' \<and> k + 1 < length content \<and> content ! (k + 1) = CHR ''/'')"
  proof (intro allI impI)
    fix k assume k: "i ?s1 \<le> k \<and> k < ?q"
    then have kk: "k - ?a < length body" by auto
    have e: "content = (pre @ ''/*'') @ (body @ ''*/'' @ rest)" unfolding c by simp
    have "k = length (pre @ ''/*'') + (k - ?a)" "k + 1 = length (pre @ ''/*'') + Suc (k - ?a)"
      using k by auto
    then have "content ! k = (body @ ''*/'' @ rest) ! (k - ?a)"
      "content ! (k + 1) = (body @ ''*/'' @ rest) ! Suc (k - ?a)"
      unfolding e by (metis nth_append_length_plus)+
    then show "\<not> (content ! k = CHR ''*'' \<and> k + 1 < length content \<and> content ! (k + 1) = CHR ''/'')"
      using no_close_inside[OF body kk, of rest] by simp
  qed
  then have 2: "scan_loop content sfx ?s1 = scan_loop content sfx ?s2"
    using code(1) by (intro block_comment_skip) (simp_all add: c)
  have "i ?s2 < length content" "content ! i ?s2 = CHR ''*''" "i ?s2 + 1 < length content"
    "content ! (i ?s2 + 1) = CHR ''/''"
    unfolding c by (simp_all add: nth_append)
  then have 3: "scan_loop content sfx ?s2 =
       scan_loop content sfx (?s2\<lparr>in_block_comment := False, i := i ?s2 + 2\<rparr>)"
    using scan_loop_step[of ?s2 content sfx] step_block_comment[of ?s2 content sfx] code(1) by simp
  have "?s2\<lparr>in_block_comment := False, i := i ?s2 + 2\<rparr> = st\<lparr>i := ?q + 2\<rparr>"
    using code(2) by (cases st) simp
  then show ?thesis using 1 2 3 by simp
qed

text \<open>
  Claim C3. A removed line comment contributes exactly its terminating newline to the
  output, and nothing when the input ends first; a removed block comment contributes
  nothing, whatever it contains. The scanner is at iteration \<open>n\<close> in code mode at the
  position where the comment opens (\<open>pre\<close> is the input before it).
  \<^item> Line comment (\<^verbatim>\<open>#\<close> for \<^verbatim>\<open>.py\<close>, \<^verbatim>\<open>//\<close> for a c-like suffix) with a body free of
    newlines, ended by a newline: the output is what the loop computes when it is resumed
    after that newline, in the state it had at the opener with only the newline appended.
  \<^item> The same comment ended by the end of the input: the output is what had been emitted
    before the opener.
  \<^item> Block comment (c-like or \<^verbatim>\<open>.css\<close>) whose first \<^verbatim>\<open>*/\<close> is the one after \<open>body\<close>: the
    output is what the loop computes when it is resumed after \<^verbatim>\<open>*/\<close>, in the state it had
    at the opener with nothing appended.
\<close>

theorem removed_comment_contribution:
  assumes "st = state_at content sfx n"
    and "\<not> in_line_comment st \<and> \<not> in_block_comment st \<and> \<not> in_string st"
    and "i st = length pre"
  shows "(((sfx = ''.py'' \<and> opener = ''#'') \<or> (sfx \<in> c_like_suffixes \<and> opener = ''//'')) \<and>
          NEWLINE \<notin> set body \<and> content = pre @ opener @ body @ NEWLINE # rest \<longrightarrow>
          remove_comments_safely content sfx =
            result (scan_loop content sfx
              (st\<lparr>result := result st @ [NEWLINE],
                  i := length pre + length opener + length body + 1\<rparr>))) \<and>
         (((sfx = ''.py'' \<and> opener = ''#'') \<or> (sfx \<in> c_like_suffixes \<and> opener = ''//'')) \<and>
          NEWLINE \<notin> set body \<and> content = pre @ opener @ body \<longrightarrow>
          remove_comments_safely content sfx = result st) \<and>
         ((sfx \<in> c_like_suffixes \<or> sfx = ''.css'') \<and> \<not> sublist ''*/'' (body @ ''*'') \<and>
          content = pre @ ''/*'' @ body @ ''*/'' @ rest \<longrightarrow>
          remove_comments_safely content sfx =
            result (scan_loop content sfx (st\<lparr>i := length pre + 2 + length body + 2\<rparr>)))"
proof -
  have code: "\<not> in_line_comment st" "\<not> in_block_comment st" "\<not> in_string st"
    using assms(2) by simp_all
  have out: "remove_comments_safely content sfx = result (scan_loop content sfx st)"
    unfolding assms(1) remove_comments_safely_def by (simp add: scan_loop_state_at)
  have 1: "content = pre @ opener @ body @ NEWLINE # rest \<Longrightarrow>
           scan_loop content sfx st =
           scan_loop content sfx (st\<lparr>result := result st @ [NEWLINE],
                                      i := length pre + length opener + length body + 1\<rparr>)"
    and 2: "content = pre @ opener @ body \<Longrightarrow> result (scan_loop content sfx st) = result st"
    if "(sfx = ''.py'' \<and> opener = ''#'') \<or> (sfx \<in> c_like_suffixes \<and> opener = ''//'')"
      and "NEWLINE \<notin> set body"
    using line_comment_removed[OF code assms(3) that] by simp_all
  have 3: "scan_loop content sfx st =
         scan_loop content sfx (st\<lparr>i := length pre + 2 + length body + 2\<rparr>)"
    if "sfx \<in> c_like_suffixes \<or> sfx = ''.css''" and "\<not> sublist ''*/'' (body @ ''*'')"
      and "content = pre @ ''/*'' @ body @ ''*/'' @ rest"
    using block_comment_removed[OF code assms(3) that] .
  show ?thesis unfolding out using 1 2 3 by simp
qed

theorem removed_comment_contribution_witness:
  "state_at ''x=1;/*a*b*/y=2;'' ''.c'' 4 =
     \<lparr>result = ''x=1;'', i = 4, in_string = False, string_char = None,
      in_block_comment = False, in_line_comment = False\<rparr> \<and>
   4 = length ''x=1;'' \<and>
   ''.c'' \<in> c_like_suffixes \<and> \<not> sublist ''*/'' (''a*b'' @ ''*'') \<and>
   ''x=1;/*a*b*/y=2;'' = ''x=1;'' @ ''/*'' @ ''a*b'' @ ''*/'' @ ''y=2;'' \<and>
   remove_comments_safely ''x=1;/*a*b*/y=2;'' ''.c'' =
     result (scan_loop ''x=1;/*a*b*/y=2;'' ''.c''
       (\<lparr>result = ''x=1;'', i = 4, in_string = False, string_char = None,
         in_block_comment = False, in_line_comment = False\<rparr>
        \<lparr>i := length ''x=1;'' + 2 + length ''a*b'' + 2\<rparr>)) \<and>
   remove_comments_safely ''x=1;/*a*b*/y=2;'' ''.c'' = ''x=1;y=2;'' \<and>
   state_at [CHR ''x'', CHR ''#'', CHR ''c'', NEWLINE, CHR ''y''] ''.py'' 1 =
     \<lparr>result = ''x'', i = 1, in_string = False, string_char = None,
      in_block_comment = False, in_line_comment = False\<rparr> \<and>
   NEWLINE \<notin> set ''c'' \<and>
   [CHR ''x'', CHR ''#'', CHR ''c'', NEWLINE, CHR ''y''] = ''x'' @ ''#'' @ ''c'' @ NEWLINE # ''y'' \<and>
   remove_comments_safely [CHR ''x'', CHR ''#'', CHR ''c'', NEWLINE, CHR ''y''] ''.py'' =
     result (scan_loop [CHR ''x'', CHR ''#'', CHR ''c'', NEWLINE, CHR ''y''] ''.py''
       (\<lparr>result = ''x'', i = 1, in_string = False, string_char = None,
         in_block_comment = False, in_line_comment = False\<rparr>
        \<lparr>result := ''x'' @ [NEWLINE], i := length ''x'' + length ''#'' + length ''c'' + 1\<rparr>)) \<and>
   remove_comments_safely [CHR ''x'', CHR ''#'', CHR ''c'', NEWLINE, CHR ''y''] ''.py'' =
     [CHR ''x'', NEWLINE, CHR ''y''] \<and>
   state_at ''x//c'' ''.c'' 1 =
     \<lparr>result = ''x'', i = 1, in_string = False, string_char = None,
      in_block_comment = False, in_line_comment = False\<rparr> \<and>
   ''x//c'' = ''x'' @ ''//'' @ ''c'' \<and>
   remove_comments_safely ''x//c'' ''.c'' = ''x''"
proof -
  let ?C = "''x=1;/*a*b*/y=2;''" and ?S = "''.c''"
  let ?st = "\<lparr>result = ''x=1;'', i = 4, in_string = False, string_char = None,
      in_block_comment = False, in_line_comment = False\<rparr>"
  have a: "?st = state_at ?C ?S 4" by code_simp
  have b: "\<not> in_line_comment ?st \<and> \<not> in_block_comment ?st \<and> \<not> in_string ?st" by simp
  have c: "i ?st = length ''x=1;''" by simp
  have c': "4 = length ''x=1;''" by simp
  have d: "?S \<in> c_like_suffixes" by (simp add: c_like_suffixes_def)
  have e: "\<not> sublist ''*/'' (''a*b'' @ ''*'')" by code_simp
  have f: "remove_comments_safely ?C ?S = ''x=1;y=2;''" by code_simp
  have h: "?C = ''x=1;'' @ ''/*'' @ ''a*b'' @ ''*/'' @ ''y=2;''" by simp
  note t = removed_comment_contribution[OF a b c, of opener "''a*b''" "''y=2;''"]
  have block: "remove_comments_safely ?C ?S =
     result (scan_loop ?C ?S (?st\<lparr>i := length ''x=1;'' + 2 + length ''a*b'' + 2\<rparr>))"
    using t d e h by blast
  let ?D = "[CHR ''x'', CHR ''#'', CHR ''c'', NEWLINE, CHR ''y'']" and ?P = "''.py''"
  let ?su = "\<lparr>result = ''x'', i = 1, in_string = False, string_char = None,
      in_block_comment = False, in_line_comment = False\<rparr>"
  have a2: "?su = state_at ?D ?P 1" by code_simp
  have b2: "\<not> in_line_comment ?su \<and> \<not> in_block_comment ?su \<and> \<not> in_string ?su" by simp
  have c2: "i ?su = length ''x''" by simp
  have e2: "NEWLINE \<notin> set ''c''" by simp
  have f2: "remove_comments_safely ?D ?P = [CHR ''x'', NEWLINE, CHR ''y'']" by code_simp
  have h2: "?D = ''x'' @ ''#'' @ ''c'' @ NEWLINE # ''y''" by simp
  have r2: "result ?su = ''x''" by simp
  note t2 = removed_comment_contribution[OF a2 b2 c2, of "''#''" "''c''" "''y''", unfolded r2]
  have line: "remove_comments_safely ?D ?P =
     result (scan_loop ?D ?P
       (?su\<lparr>result := ''x'' @ [NEWLINE], i := length ''x'' + length ''#'' + length ''c'' + 1\<rparr>))"
    using t2 e2 h2 by blast
  let ?E = "''x//c''"
  have a3: "?su = state_at ?E ?S 1" by code_simp
  have h3: "?E = ''x'' @ ''//'' @ ''c''" by simp
  note t3 = removed_comment_contribution[OF a3 b2 c2, of "''//''" "''c''" rest, unfolded r2]
  have eof: "remove_comments_safely ?E ?S = ''x''"
    using t3 d e2 h3 by blast
  show ?thesis
    using a[symmetric] c' d e f h block a2[symmetric] e2 h2 line f2 a3[symmetric] h3 eof
    by blast
qed

section \<open>C5: unterminated comments\<close>

lemma pair_sublist:
  assumes "Suc j < length xs" "xs ! j = a" "xs ! Suc j = b"
  shows "sublist [a, b] xs"
proof -
  have "xs = take j xs @ [a, b] @ drop (Suc (Suc j)) xs"
    using assms by (metis Cons_nth_drop_Suc Suc_lessD append_Cons append_Nil append_take_drop_id)
  then show ?thesis unfolding sublist_def by blast
qed

lemma find_at_None: "find_at sub xs k = None \<longleftrightarrow> \<not> sublist sub xs"
  by (induction xs arbitrary: k) (auto simp: sublist_Cons_right)

lemma markup_suffix_only:
  assumes "sfx \<in> markup_suffixes"
  shows "sfx \<noteq> ''.py''" "sfx \<notin> c_like_suffixes" "sfx \<noteq> ''.css''"
  using assms unfolding markup_suffixes_def c_like_suffixes_def by auto

lemma block_comment_unterminated:
  assumes code: "\<not> in_line_comment st" "\<not> in_block_comment st" "\<not> in_string st"
    and pos: "i st = length pre"
    and op: "sfx \<in> c_like_suffixes \<or> sfx = ''.css''"
    and body: "\<not> sublist ''*/'' body"
    and c: "content = pre @ ''/*'' @ body"
  shows "result (scan_loop content sfx st) = result st"
proof -
  let ?a = "length pre + 2"
  let ?s1 = "st\<lparr>in_block_comment := True, i := ?a\<rparr>"
  let ?s2 = "?s1\<lparr>i := length content\<rparr>"
  have "i st < length content" using pos c by simp
  then have 1: "scan_loop content sfx st = scan_loop content sfx ?s1"
    using scan_loop_step[of st content sfx] block_comment_opened[OF code pos op c] by simp
  have "\<forall>k. i ?s1 \<le> k \<and> k < length content \<longrightarrow>
      \<not> (content ! k = CHR ''*'' \<and> k + 1 < length content \<and> content ! (k + 1) = CHR ''/'')"
  proof (intro allI impI notI)
    fix k
    assume k: "i ?s1 \<le> k \<and> k < length content"
      and h: "content ! k = CHR ''*'' \<and> k + 1 < length content \<and> content ! (k + 1) = CHR ''/''"
    have e: "content = (pre @ ''/*'') @ body" unfolding c by simp
    have "k = length (pre @ ''/*'') + (k - ?a)" "k + 1 = length (pre @ ''/*'') + Suc (k - ?a)"
      using k by auto
    then have "content ! k = body ! (k - ?a)" "content ! (k + 1) = body ! Suc (k - ?a)"
      unfolding e by (metis nth_append_length_plus)+
    moreover have "Suc (k - ?a) < length body" using h k unfolding c by auto
    ultimately have "sublist ''*/'' body" using h pair_sublist by metis
    then show False using body by simp
  qed
  then have 2: "scan_loop content sfx ?s1 = scan_loop content sfx ?s2"
    using code(1) by (intro block_comment_skip) (simp_all add: c)
  have "scan_loop content sfx ?s2 = ?s2" by (rule scan_loop_exit) simp
  then show ?thesis using 1 2 by simp
qed

lemma markup_unterminated:
  assumes code: "\<not> in_line_comment st" "\<not> in_block_comment st" "\<not> in_string st"
    and pos: "i st = length pre"
    and op: "sfx \<in> markup_suffixes"
    and body: "\<not> sublist ''-->'' body"
    and c: "content = pre @ ''<!--'' @ body"
  shows "step content sfx st = st\<lparr>result := result st @ ''<'', i := length pre + 1\<rparr>"
proof -
  have "drop (length pre + 4) content = body" unfolding c by simp
  then have "str_find content ''-->'' (length pre + 4) = None"
    using body by (simp add: str_find_def find_at_None)
  then have "markup_end content sfx (i st) = None" by (simp add: markup_end_def pos)
  moreover have "content ! i st = CHR ''<''" unfolding c pos by (simp add: nth_append)
  ultimately show ?thesis
    using code pos markup_suffix_only[OF op] unfolding step_def Let_def by simp
qed

text \<open>
  Claim C5. Unterminated comments are handled without error and asymmetrically. The scanner
  is at iteration \<open>n\<close> in code mode where the opener stands (\<open>pre\<close> is the input before it).
  \<^item> For a c-like suffix or \<^verbatim>\<open>.css\<close>, when \<^verbatim>\<open>/*\<close> is followed by no \<^verbatim>\<open>*/\<close>, everything from
    the opener to the end of the input is dropped: the output is what had been emitted
    before the opener. So \<^verbatim>\<open>code /* never closes\<close> gives \<^verbatim>\<open>code \<close>.
  \<^item> For a markup suffix, when \<^verbatim>\<open><!--\<close> is followed by no \<^verbatim>\<open>-->\<close>, the iteration emits the
    \<^verbatim>\<open><\<close> as ordinary text and goes on to the next character, still in code mode.
\<close>

theorem unterminated_comments:
  assumes "st = state_at content sfx n"
    and "\<not> in_line_comment st \<and> \<not> in_block_comment st \<and> \<not> in_string st"
    and "i st = length pre"
  shows "((sfx \<in> c_like_suffixes \<or> sfx = ''.css'') \<and> \<not> sublist ''*/'' body \<and>
          content = pre @ ''/*'' @ body \<longrightarrow>
          remove_comments_safely content sfx = result st) \<and>
         (sfx \<in> markup_suffixes \<and> \<not> sublist ''-->'' body \<and>
          content = pre @ ''<!--'' @ body \<longrightarrow>
          state_at content sfx (Suc n) = st\<lparr>result := result st @ ''<'', i := length pre + 1\<rparr>) \<and>
         remove_comments_safely ''code /* never closes'' ''.js'' = ''code '' \<and>
         remove_comments_safely ''code /* never closes'' ''.css'' = ''code ''"
proof -
  have code: "\<not> in_line_comment st" "\<not> in_block_comment st" "\<not> in_string st"
    using assms(2) by simp_all
  have out: "remove_comments_safely content sfx = result (scan_loop content sfx st)"
    unfolding assms(1) remove_comments_safely_def by (simp add: scan_loop_state_at)
  have 1: "result (scan_loop content sfx st) = result st"
    if "sfx \<in> c_like_suffixes \<or> sfx = ''.css''" "\<not> sublist ''*/'' body"
      "content = pre @ ''/*'' @ body"
    using block_comment_unterminated[OF code assms(3) that] .
  have 2: "state_at content sfx (Suc n) = st\<lparr>result := result st @ ''<'', i := length pre + 1\<rparr>"
    if h: "sfx \<in> markup_suffixes" "\<not> sublist ''-->'' body" "content = pre @ ''<!--'' @ body"
  proof -
    have "i (state_at content sfx n) < length content"
      using assms(1,3) h(3) by simp
    then have "state_at content sfx (Suc n) = step content sfx st"
      using assms(1) by (simp add: state_at_Suc)
    then show ?thesis using markup_unterminated[OF code assms(3) h] by simp
  qed
  have 3: "remove_comments_safely ''code /* never closes'' ''.js'' = ''code ''" by code_simp
  have 4: "remove_comments_safely ''code /* never closes'' ''.css'' = ''code ''" by code_simp
  show ?thesis unfolding out using 1 2 3 4 by simp
qed

theorem unterminated_comments_witness:
  "state_at ''a<!--b->'' ''.html'' 1 =
     \<lparr>result = ''a'', i = 1, in_string = False, string_char = None,
      in_block_comment = False, in_line_comment = False\<rparr> \<and>
   ''.html'' \<in> markup_suffixes \<and> \<not> sublist ''-->'' ''b->'' \<and>
   ''a<!--b->'' = ''a'' @ ''<!--'' @ ''b->'' \<and>
   state_at ''a<!--b->'' ''.html'' (Suc 1) =
     \<lparr>result = ''a'', i = 1, in_string = False, string_char = None,
      in_block_comment = False, in_line_comment = False\<rparr>
     \<lparr>result := ''a'' @ ''<'', i := length ''a'' + 1\<rparr> \<and>
   remove_comments_safely ''a<!--b->'' ''.html'' = ''a<!--b->'' \<and>
   state_at ''a/*b*'' ''.css'' 1 =
     \<lparr>result = ''a'', i = 1, in_string = False, string_char = None,
      in_block_comment = False, in_line_comment = False\<rparr> \<and>
   \<not> sublist ''*/'' ''b*'' \<and> ''a/*b*'' = ''a'' @ ''/*'' @ ''b*'' \<and>
   remove_comments_safely ''a/*b*'' ''.css'' = ''a''"
proof -
  let ?su = "\<lparr>result = ''a'', i = 1, in_string = False, string_char = None,
      in_block_comment = False, in_line_comment = False\<rparr>"
  have b: "\<not> in_line_comment ?su \<and> \<not> in_block_comment ?su \<and> \<not> in_string ?su" by simp
  have c: "i ?su = length ''a''" by simp
  have r: "result ?su = ''a''" by simp
  have a1: "?su = state_at ''a<!--b->'' ''.html'' 1" by code_simp
  have d1: "''.html'' \<in> markup_suffixes" by (simp add: markup_suffixes_def)
  have e1: "\<not> sublist ''-->'' ''b->''" by code_simp
  have h1: "''a<!--b->'' = ''a'' @ ''<!--'' @ ''b->''" by simp
  have f1: "remove_comments_safely ''a<!--b->'' ''.html'' = ''a<!--b->''" by code_simp
  note t1 = unterminated_comments[OF a1 b c, of "''b->''", unfolded r]
  have m: "state_at ''a<!--b->'' ''.html'' (Suc 1) =
     ?su\<lparr>result := ''a'' @ ''<'', i := length ''a'' + 1\<rparr>"
    using t1 d1 e1 h1 by blast
  have a2: "?su = state_at ''a/*b*'' ''.css'' 1" by code_simp
  have e2: "\<not> sublist ''*/'' ''b*''" by code_simp
  have h2: "''a/*b*'' = ''a'' @ ''/*'' @ ''b*''" by simp
  note t2 = unterminated_comments[OF a2 b c, of "''b*''", unfolded r]
  have k: "remove_comments_safely ''a/*b*'' ''.css'' = ''a''"
    using t2 e2 h2 by blast
  show ?thesis using a1[symmetric] d1 e1 h1 m f1 a2[symmetric] e2 h2 k by blast
qed

section \<open>C7: a file that fails validation is skipped and left as it is\<close>

lemma validate_syntax_fs:
  "validate_syntax e fs file_path content = (ok, fs1) \<Longrightarrow>
   fs1 = fs \<or> (\<exists>tmp. temp_file e fs (suffix_lower e file_path) = Inr tmp \<and> fs1 = fs(tmp \<mapsto> content))"
  unfolding validate_syntax_def Let_def by (auto split: if_splits sum.splits)

text \<open>
  Claim C7. When validation is enabled and the cleaned content fails the syntax check,
  \<^verbatim>\<open>process_file\<close> returns the outcome \<^verbatim>\<open>[SKIPPED - INVALID SYNTAX] <path>\<close> with the file
  system as the check left it: no backup was made and nothing was written to the file.
  The check itself changes at most the temporary file it creates, so every other path,
  the original file among them, has the content it had. The outcome is a returned string,
  and the loop over the files goes on with the files that follow.
\<close>

theorem invalid_syntax_skipped:
  assumes "fs file_path = Some content"
    and "validate_syntax e fs file_path
           (remove_comments_safely content (suffix_lower e file_path)) = (False, fs1)"
  shows "process_file e fs file_path backup True dry_run =
           (''[SKIPPED - INVALID SYNTAX] '' @ file_path, fs1) \<and>
         (\<forall>q. temp_file e fs (suffix_lower e file_path) \<noteq> Inr q \<longrightarrow> fs1 q = fs q) \<and>
         (temp_file e fs (suffix_lower e file_path) \<noteq> Inr file_path \<longrightarrow>
            fs1 file_path = Some content) \<and>
         process_all e fs (file_path # files) backup True dry_run =
           ((''[SKIPPED - INVALID SYNTAX] '' @ file_path) #
              fst (process_all e fs1 files backup True dry_run),
            snd (process_all e fs1 files backup True dry_run))"
proof -
  have p: "process_file e fs file_path backup True dry_run =
           (''[SKIPPED - INVALID SYNTAX] '' @ file_path, fs1)"
    using assms unfolding process_file_def process_file_body_def Let_def by simp
  have q: "\<forall>q. temp_file e fs (suffix_lower e file_path) \<noteq> Inr q \<longrightarrow> fs1 q = fs q"
    using validate_syntax_fs[OF assms(2)] by auto
  then have o: "temp_file e fs (suffix_lower e file_path) \<noteq> Inr file_path \<longrightarrow>
            fs1 file_path = Some content"
    using assms(1) by simp
  have a: "process_all e fs (file_path # files) backup True dry_run =
           ((''[SKIPPED - INVALID SYNTAX] '' @ file_path) #
              fst (process_all e fs1 files backup True dry_run),
            snd (process_all e fs1 files backup True dry_run))"
    using p by (simp add: case_prod_beta)
  show ?thesis using p q o a by blast
qed

theorem invalid_syntax_skipped_witness:
  "[''a.js'' \<mapsto> ''x = ; // c''] ''a.js'' = Some ''x = ; // c'' \<and>
   validate_syntax demo_env [''a.js'' \<mapsto> ''x = ; // c''] ''a.js''
     (remove_comments_safely ''x = ; // c'' (suffix_lower demo_env ''a.js'')) =
     (False, [''a.js'' \<mapsto> ''x = ; // c'', ''/tmp/t.js'' \<mapsto> ''x = ; '']) \<and>
   process_file demo_env [''a.js'' \<mapsto> ''x = ; // c''] ''a.js'' True True False =
     (''[SKIPPED - INVALID SYNTAX] a.js'',
      [''a.js'' \<mapsto> ''x = ; // c'', ''/tmp/t.js'' \<mapsto> ''x = ; '']) \<and>
   [''a.js'' \<mapsto> ''x = ; // c'', ''/tmp/t.js'' \<mapsto> ''x = ; ''] ''a.js'' = Some ''x = ; // c'' \<and>
   [''a.js'' \<mapsto> ''x = ; // c'', ''/tmp/t.js'' \<mapsto> ''x = ; ''] ''a.js.bak'' = None"
proof -
  let ?fs = "[''a.js'' \<mapsto> ''x = ; // c'']"
  let ?fs1 = "[''a.js'' \<mapsto> ''x = ; // c'', ''/tmp/t.js'' \<mapsto> ''x = ; '']"
  have c: "remove_comments_safely ''x = ; // c'' ''.js'' = ''x = ; ''" by code_simp
  have r: "?fs ''a.js'' = Some ''x = ; // c''" by simp
  have s: "suffix_lower demo_env ''a.js'' = ''.js''" by (simp add: demo_env_def)
  have v: "validate_syntax demo_env ?fs ''a.js''
     (remove_comments_safely ''x = ; // c'' (suffix_lower demo_env ''a.js'')) = (False, ?fs1)"
    unfolding s c by (simp add: validate_syntax_def check_with_def demo_env_def Let_def)
  note t = invalid_syntax_skipped[OF r v, of True False "[]"]
  have "process_file demo_env ?fs ''a.js'' True True False =
     (''[SKIPPED - INVALID SYNTAX] '' @ ''a.js'', ?fs1)" using t by blast
  then have "process_file demo_env ?fs ''a.js'' True True False =
     (''[SKIPPED - INVALID SYNTAX] a.js'', ?fs1)" by simp
  moreover have "?fs1 ''a.js'' = Some ''x = ; // c''" "?fs1 ''a.js.bak'' = None" by simp_all
  ultimately show ?thesis using r v by blast
qed

section \<open>The loop computes \<open>scan_rest\<close>\<close>

lemma drop_step:
  assumes "k < length xs"
  shows "drop k xs = xs ! k # drop (Suc k) xs"
    and "drop (Suc k) xs \<noteq> [] \<longleftrightarrow> Suc k < length xs"
    and "Suc k < length xs \<Longrightarrow> hd (drop (Suc k) xs) = xs ! Suc k"
    and "tl (drop (Suc k) xs) = drop (Suc (Suc k)) xs"
proof -
  show "drop k xs = xs ! k # drop (Suc k) xs" using assms by (simp add: Cons_nth_drop_Suc)
  show "drop (Suc k) xs \<noteq> [] \<longleftrightarrow> Suc k < length xs" by auto
  show "Suc k < length xs \<Longrightarrow> hd (drop (Suc k) xs) = xs ! Suc k" by (rule hd_drop_conv_nth)
  show "tl (drop (Suc k) xs) = drop (Suc (Suc k)) xs" by (metis drop_Suc tl_drop)
qed

lemma prev_char_Suc: "prev_char content (Suc k) = content ! k"
  by (simp add: prev_char_def)

lemma step_code_plain:
  assumes "\<not> in_line_comment st" "\<not> in_block_comment st" "\<not> in_string st"
    and "sfx \<notin> markup_suffixes"
  shows "step content sfx st =
     (if content ! i st \<in> {QUOTE1, QUOTE2, BACKTICK} then
        st\<lparr>in_string := True, string_char := Some (content ! i st),
           result := result st @ [content ! i st], i := i st + 1\<rparr>
      else if sfx = ''.py'' \<and> content ! i st = CHR ''#'' then
        st\<lparr>in_line_comment := True, i := i st + 1\<rparr>
      else if sfx \<in> c_like_suffixes \<and> content ! i st = CHR ''/'' \<and> i st + 1 < length content \<and>
              content ! (i st + 1) = CHR ''/'' then
        st\<lparr>in_line_comment := True, i := i st + 2\<rparr>
      else if (sfx \<in> c_like_suffixes \<or> sfx = ''.css'') \<and> content ! i st = CHR ''/'' \<and>
              i st + 1 < length content \<and> content ! (i st + 1) = CHR ''*'' then
        st\<lparr>in_block_comment := True, i := i st + 2\<rparr>
      else st\<lparr>result := result st @ [content ! i st], i := i st + 1\<rparr>)"
  using assms unfolding step_def Let_def markup_end_def by auto

lemma step_scan_rest:
  assumes nm: "sfx \<notin> markup_suffixes" and lt: "i st < length content" and ex: "exclusive st"
  shows "i (step content sfx st) \<le> length content \<and>
         result (step content sfx st) @
           scan_rest sfx (mode_of content (step content sfx st)) (drop (i (step content sfx st)) content) =
         result st @ scan_rest sfx (mode_of content st) (drop (i st) content)"
proof -
  note d = drop_step[OF lt]
  consider (line) "in_line_comment st"
    | (block) "\<not> in_line_comment st" "in_block_comment st"
    | (str) "\<not> in_line_comment st" "\<not> in_block_comment st" "in_string st"
    | (code) "\<not> in_line_comment st" "\<not> in_block_comment st" "\<not> in_string st"
    by blast
  then show ?thesis
  proof cases
    case line
    show ?thesis
      unfolding step_line_comment[OF line] using line lt ex
      by (simp add: mode_of_def d(1) exclusive_def)
  next
    case block
    show ?thesis
      unfolding step_block_comment[OF block] using block lt d(2,3,4) ex
      by (auto simp: mode_of_def d(1) exclusive_def)
  next
    case str
    show ?thesis
      unfolding step_in_string[OF str] using str lt
      by (simp add: mode_of_def d(1) prev_char_Suc)
  next
    case code
    let ?c = "content ! i st" and ?cs = "drop (Suc (i st)) content"
    have E: "(?cs \<noteq> [] \<and> hd ?cs = x) \<longleftrightarrow> (i st + 1 < length content \<and> content ! (i st + 1) = x)"
      for x using d(2,3) by auto
    have R: "scan_rest sfx Code (drop (i st) content) =
     (if ?c \<in> {QUOTE1, QUOTE2, BACKTICK} then ?c # scan_rest sfx (StringLiteral (Some ?c) ?c) ?cs
      else if sfx = ''.py'' \<and> ?c = CHR ''#'' then scan_rest sfx LineComment ?cs
      else if sfx \<in> c_like_suffixes \<and> ?c = CHR ''/'' \<and> i st + 1 < length content \<and>
              content ! (i st + 1) = CHR ''/''
        then scan_rest sfx LineComment (drop (Suc (Suc (i st))) content)
      else if (sfx \<in> c_like_suffixes \<or> sfx = ''.css'') \<and> ?c = CHR ''/'' \<and>
              i st + 1 < length content \<and> content ! (i st + 1) = CHR ''*''
        then scan_rest sfx BlockComment (drop (Suc (Suc (i st))) content)
      else ?c # scan_rest sfx Code ?cs)"
      unfolding d(1) scan_rest.simps d(4) using E[of "CHR ''/''"] E[of "CHR ''*''"]
      by (simp only: conj_assoc)
    have M: "mode_of content st = Code" using code by (simp add: mode_of_def)
    show ?thesis
      unfolding step_code_plain[OF code nm] M R using code lt
      by (auto simp: mode_of_def prev_char_Suc)
  qed
qed

lemma scan_loop_scan_rest:
  assumes "sfx \<notin> markup_suffixes" and "i st \<le> length content" and "exclusive st"
  shows "result (scan_loop content sfx st) =
         result st @ scan_rest sfx (mode_of content st) (drop (i st) content)"
proof -
  let ?K = "result st @ scan_rest sfx (mode_of content st) (drop (i st) content)"
  let ?P = "\<lambda>s. exclusive s \<and> i s \<le> length content \<and>
                 result s @ scan_rest sfx (mode_of content s) (drop (i s) content) = ?K"
  let ?f = "scan_loop content sfx st"
  have "?P st" using assms(2,3) by simp
  moreover have "\<And>s. ?P s \<Longrightarrow> i s < length content \<Longrightarrow> ?P (step content sfx s)"
    using step_scan_rest[OF assms(1)] step_exclusive by simp
  ultimately have fin: "?P ?f \<and> length content \<le> i ?f"
    by (rule scan_loop_invariant)
  have a: "length content \<le> i ?f" using fin by blast
  have b: "result ?f @ scan_rest sfx (mode_of content ?f) (drop (i ?f) content) = ?K"
    using fin by blast
  have "drop (i ?f) content = []" using a by simp
  then show ?thesis using b by simp
qed

lemma remove_comments_safely_scan_rest:
  "sfx \<notin> markup_suffixes \<Longrightarrow> remove_comments_safely content sfx = scan_rest sfx Code content"
  unfolding remove_comments_safely_def
  by (simp add: scan_loop_scan_rest init_state_def mode_of_def exclusive_def)

section \<open>C1: idempotence\<close>

lemma scan_rest_code_head:
  assumes "sfx \<in> c_like_suffixes" "d \<noteq> CHR ''/''"
  shows "\<exists>zs. scan_rest sfx Code (d # ds) = d # zs"
proof -
  have "sfx \<noteq> ''.py''" using assms(1) by (auto simp: c_like_suffixes_def)
  then show ?thesis using assms(2) by simp
qed

lemma scan_rest_slash:
  assumes "sfx \<in> c_like_suffixes" and "c = CHR ''/''"
    and "ys = [] \<or> (hd ys \<noteq> CHR ''/'' \<and> hd ys \<noteq> CHR ''*'')"
  shows "scan_rest sfx Code (c # ys) = c # scan_rest sfx Code ys"
proof -
  have "sfx \<noteq> ''.py''" using assms(1) by (auto simp: c_like_suffixes_def)
  then show ?thesis using assms(2,3) by auto
qed

lemma scan_rest_idem:
  assumes "sfx = ''.py'' \<or> sfx \<in> c_like_suffixes"
  shows "scan_rest sfx (resume m) (scan_rest sfx m xs) = scan_rest sfx m xs"
proof (induction "length xs" arbitrary: xs m rule: less_induct)
  case less
  have py: "sfx = ''.py'' \<Longrightarrow> sfx \<notin> c_like_suffixes \<and> sfx \<noteq> ''.css''"
    by (auto simp: c_like_suffixes_def)
  have cl: "sfx \<in> c_like_suffixes \<Longrightarrow> sfx \<noteq> ''.py'' \<and> sfx \<noteq> ''.css''"
    by (auto simp: c_like_suffixes_def)
  have IH: "scan_rest sfx (resume m') (scan_rest sfx m' ys) = scan_rest sfx m' ys"
    if "length ys < length xs" for ys m'
    using less that by blast
  show ?case
  proof (cases xs)
    case Nil
    then show ?thesis by simp
  next
    case (Cons c cs)
    have ihc: "scan_rest sfx (resume m') (scan_rest sfx m' cs) = scan_rest sfx m' cs" for m'
      using IH[of cs m'] Cons by simp
    have iht: "scan_rest sfx (resume m') (scan_rest sfx m' (tl cs)) = scan_rest sfx m' (tl cs)" for m'
      using IH[of "tl cs" m'] Cons by simp
    show ?thesis
    proof (cases m)
      case LineComment
      show ?thesis
      proof (cases "c = NEWLINE")
        case True
        then show ?thesis using LineComment Cons ihc[of Code] assms py cl by auto
      next
        case False
        then show ?thesis using LineComment Cons ihc[of LineComment] by simp
      qed
    next
      case BlockComment
      then show ?thesis using Cons ihc[of BlockComment] iht[of Code] by simp
    next
      case (StringLiteral q p)
      then show ?thesis
        using Cons ihc[of Code] ihc[of "StringLiteral q c"] by simp
    next
      case Code
      let ?Y = "scan_rest sfx Code cs"
      have ncss: "sfx \<noteq> ''.css''" using assms py cl by blast
      consider (quote) "c \<in> {QUOTE1, QUOTE2, BACKTICK}"
        | (hash) "c \<notin> {QUOTE1, QUOTE2, BACKTICK}" "sfx = ''.py''" "c = CHR ''#''"
        | (line) "c \<notin> {QUOTE1, QUOTE2, BACKTICK}" "sfx \<in> c_like_suffixes" "c = CHR ''/''"
            "cs \<noteq> []" "hd cs = CHR ''/''"
        | (block) "c \<notin> {QUOTE1, QUOTE2, BACKTICK}" "sfx \<in> c_like_suffixes" "c = CHR ''/''"
            "cs \<noteq> []" "hd cs = CHR ''*''"
        | (slash) "c \<notin> {QUOTE1, QUOTE2, BACKTICK}" "sfx \<in> c_like_suffixes" "c = CHR ''/''"
            "cs = [] \<or> (hd cs \<noteq> CHR ''/'' \<and> hd cs \<noteq> CHR ''*'')"
        | (other) "c \<notin> {QUOTE1, QUOTE2, BACKTICK}" "\<not> (sfx = ''.py'' \<and> c = CHR ''#'')"
            "\<not> (sfx \<in> c_like_suffixes \<and> c = CHR ''/'')"
        by blast
      then show ?thesis
      proof cases
        case quote
        then show ?thesis
          unfolding Code Cons using ihc[of "StringLiteral (Some c) c"] by simp
      next
        case hash
        then show ?thesis
          unfolding Code Cons using ihc[of LineComment] by simp
      next
        case line
        then show ?thesis
          unfolding Code Cons using iht[of LineComment] cl by simp
      next
        case block
        then show ?thesis
          unfolding Code Cons using iht[of BlockComment] cl by simp
      next
        case slash
        have e: "scan_rest sfx Code (c # cs) = c # ?Y"
          using slash(2,3,4) by (rule scan_rest_slash)
        have "?Y = [] \<or> (hd ?Y \<noteq> CHR ''/'' \<and> hd ?Y \<noteq> CHR ''*'')"
        proof (cases cs)
          case Nil
          then show ?thesis by simp
        next
          case (Cons d ds)
          then have d: "d \<noteq> CHR ''/''" "d \<noteq> CHR ''*''" using slash(4) by auto
          obtain zs where "?Y = d # zs"
            using scan_rest_code_head[OF slash(2) d(1), of ds] Cons by auto
          then show ?thesis using d by simp
        qed
        then have "scan_rest sfx Code (c # ?Y) = c # scan_rest sfx Code ?Y"
          using slash(2,3) by (intro scan_rest_slash)
        then show ?thesis unfolding Code Cons e using ihc[of Code] by simp
      next
        case other
        have e: "scan_rest sfx Code (c # ys) = c # scan_rest sfx Code ys" for ys
          using other ncss by auto
        show ?thesis unfolding Code Cons using ihc[of Code] by (simp add: e del: scan_rest.simps)
      qed
    qed
  qed
qed


text \<open>
  Claim C1, as amended. For every input text, the scanner is idempotent when the suffix is
  \<^verbatim>\<open>.py\<close> or one of the c-like suffixes: cleaning a cleaned text changes nothing.
  (For \<^verbatim>\<open>.css\<close> and for the markup suffixes it is not: see the counterexample below.)
\<close>

theorem idempotent_python_c_like:
  assumes "sfx = ''.py'' \<or> sfx \<in> c_like_suffixes"
  shows "remove_comments_safely (remove_comments_safely content sfx) sfx =
         remove_comments_safely content sfx"
proof -
  have "sfx \<notin> markup_suffixes"
    using assms by (auto simp: markup_suffixes_def c_like_suffixes_def)
  then have "remove_comments_safely xs sfx = scan_rest sfx Code xs" for xs
    by (rule remove_comments_safely_scan_rest)
  then show ?thesis using scan_rest_idem[OF assms, of Code content] by simp
qed

theorem idempotent_python_c_like_witness:
  "''.js'' \<in> c_like_suffixes \<and>
   remove_comments_safely ''a/ /*x*/ /b//c'' ''.js'' = ''a/  /b'' \<and>
   remove_comments_safely (remove_comments_safely ''a/ /*x*/ /b//c'' ''.js'') ''.js'' =
     remove_comments_safely ''a/ /*x*/ /b//c'' ''.js''"
proof -
  have a: "''.js'' \<in> c_like_suffixes" by (simp add: c_like_suffixes_def)
  then have b: "''.js'' = ''.py'' \<or> ''.js'' \<in> c_like_suffixes" by blast
  have c: "remove_comments_safely ''a/ /*x*/ /b//c'' ''.js'' = ''a/  /b''" by code_simp
  show ?thesis using a c idempotent_python_c_like[OF b, of "''a/ /*x*/ /b//c''"] by blast
qed

text \<open>
  The claim as stated fails for \<^verbatim>\<open>.css\<close> and for markup. With \<^verbatim>\<open>.css\<close> the text
  \<^verbatim>\<open>//**/*\<close> is cleaned to \<^verbatim>\<open>/*\<close> (the first slash is code, \<^verbatim>\<open>/**/\<close> is a comment, the star
  is code), and \<^verbatim>\<open>/*\<close> is cleaned to the empty text. With \<^verbatim>\<open>.html\<close> the text
  \<^verbatim>\<open><!<!---->---->\<close> is cleaned to \<^verbatim>\<open><!---->\<close>, which is a whole comment.
\<close>

theorem idempotence_counterexample:
  "remove_comments_safely ''//**/*'' ''.css'' = ''/*'' \<and>
   remove_comments_safely (remove_comments_safely ''//**/*'' ''.css'') ''.css'' = [] \<and>
   remove_comments_safely (remove_comments_safely ''//**/*'' ''.css'') ''.css'' \<noteq>
     remove_comments_safely ''//**/*'' ''.css'' \<and>
   remove_comments_safely ''<!<!---->---->'' ''.html'' = ''<!---->'' \<and>
   remove_comments_safely (remove_comments_safely ''<!<!---->---->'' ''.html'') ''.html'' = [] \<and>
   remove_comments_safely (remove_comments_safely ''<!<!---->---->'' ''.html'') ''.html'' \<noteq>
     remove_comments_safely ''<!<!---->---->'' ''.html''"
proof -
  have a: "remove_comments_safely ''//**/*'' ''.css'' = ''/*''" by code_simp
  have b: "remove_comments_safely ''/*'' ''.css'' = []" by code_simp
  have c: "remove_comments_safely ''<!<!---->---->'' ''.html'' = ''<!---->''" by code_simp
  have d: "remove_comments_safely ''<!---->'' ''.html'' = []" by code_simp
  show ?thesis unfolding a b c d by simp
qed

end
